theory Spec2Isabelle
  imports Main
begin

section \<open>RemoteData values\<close>

text \<open>
  The package works on the \<open>RemoteData<T>\<close> type of the library \<open>ts-remote-data\<close>, an
  untagged union \<open>T | NOT_ASKED | LOADING | RemoteFailure\<close>: the two sentinels are
  distinguished JavaScript values, a failure is an object carrying an \<open>error\<close> of unknown
  type, and every other value is a ready value standing for itself. The values of the
  program are therefore one universe. Two kinds of ready value behave in a way of their
  own and are set apart: \<open>NaN\<close>, the number that is not strictly equal to itself, and
  the function values, which React calls when one is handed to a state setter. A function
  value is named by a number (its identity); what it returns when called is given where
  it is called. \<open>Plain\<close> holds all other values. In prose the four states are NotStarted
  (\<open>NOT_ASKED\<close>), Pending (\<open>LOADING\<close>), Failed (\<open>Failure\<close>) and Ready (a value
  satisfying \<open>isReady\<close>).
\<close>

datatype 'a jsval = NOT_ASKED | LOADING | Failure "'a jsval" | Plain 'a | NaN | Func nat

type_synonym 'a RemoteData = "'a jsval"

fun isFailure :: "'a RemoteData \<Rightarrow> bool" where
  "isFailure (Failure e) = True"
| "isFailure NOT_ASKED = False"
| "isFailure LOADING = False"
| "isFailure (Plain v) = False"
| "isFailure NaN = False"
| "isFailure (Func f) = False"

definition isReady :: "'a RemoteData \<Rightarrow> bool" where
  "isReady rd = (rd \<noteq> NOT_ASKED \<and> rd \<noteq> LOADING \<and> \<not> isFailure rd)"

definition failWith :: "'a jsval \<Rightarrow> 'a RemoteData" where
  "failWith e = Failure e"

text \<open>
  JavaScript's \<open>a !== b\<close>: values differ, or the value is \<open>NaN\<close>. Objects and
  functions are compared by identity, which is what equality of \<open>Plain\<close> and \<open>Func\<close>
  values stands for.
\<close>

definition strict_neq :: "'a jsval \<Rightarrow> 'a jsval \<Rightarrow> bool" where
  "strict_neq a b = (a \<noteq> b \<or> a = NaN)"

text \<open>
  The setter of React's \<open>useState\<close>, called with \<open>action\<close> while the state is \<open>prev\<close>:
  a function is called with the state and what it returns is stored, any other value is
  stored as it is. \<open>call f v\<close> is what the function value \<open>f\<close> returns for \<open>v\<close>;
  \<open>isFunction\<close> is \<open>typeof v === 'function'\<close>.
\<close>

fun isFunction :: "'a jsval \<Rightarrow> bool" where
  "isFunction (Func f) = True"
| "isFunction NOT_ASKED = False"
| "isFunction LOADING = False"
| "isFunction (Failure e) = False"
| "isFunction (Plain v) = False"
| "isFunction NaN = False"

definition setState :: "(nat \<Rightarrow> 'a jsval \<Rightarrow> 'a jsval) \<Rightarrow> 'a jsval \<Rightarrow> 'a jsval \<Rightarrow> 'a jsval" where
  "setState call action prev = (case action of Func f \<Rightarrow> call f prev | _ \<Rightarrow> action)"

section \<open>useRemoteLatest: the slot of the last shown value\<close>

text \<open>
  \<open>useRemoteLatest(data)\<close> keeps one ref, \<open>shown\<close>. \<open>useRef(data)\<close> seeds it with the
  first render's argument; the ref of an instance that has not rendered yet is \<open>None\<close>.
  The function returns the new content of the ref, which is also the hook's result.
\<close>

definition useRemoteLatest :: "'a RemoteData option \<Rightarrow> 'a RemoteData \<Rightarrow> 'a RemoteData" where
  "useRemoteLatest ref data =
     (let shown = (case ref of None \<Rightarrow> data | Some s \<Rightarrow> s)
      in if isReady data \<or> isFailure data \<or> \<not> isReady shown then data else shown)"

text \<open>The results of the successive renders of one instance, fed a list of values.\<close>

fun renders :: "'a RemoteData option \<Rightarrow> 'a RemoteData list \<Rightarrow> 'a RemoteData list" where
  "renders ref [] = []"
| "renders ref (d # ds) = (let s = useRemoteLatest ref d in s # renders (Some s) ds)"

text \<open>The ref after these renders.\<close>

fun slot_after :: "'a RemoteData option \<Rightarrow> 'a RemoteData list \<Rightarrow> 'a RemoteData option" where
  "slot_after ref [] = ref"
| "slot_after ref (d # ds) = slot_after (Some (useRemoteLatest ref d)) ds"

section \<open>ActivityIndicator: the registry of active tokens\<close>

text \<open>
  The component keeps the set \<open>registered\<close> (a ref holding a \<open>Set<number>\<close>) and the
  state \<open>isIndicating\<close>; \<open>uniqueId\<close> is the counter of the module. The counter is a
  natural number here: JavaScript numbers count exactly up to \<open>2^53\<close>, which no run of
  registrations reaches. \<open>register\<close> returns the token it took together with the new
  state; the closure it returns in the source is \<open>deregister\<close> applied to that token.
\<close>

record ActivityIndicator_state =
  uniqueId :: nat
  registered :: "nat set"
  isIndicating :: bool

definition register :: "ActivityIndicator_state \<Rightarrow> nat \<times> ActivityIndicator_state" where
  "register s =
     (let ident = uniqueId s;
          s1 = s\<lparr>uniqueId := uniqueId s + 1\<rparr>;
          wasEmpty = (registered s1 = {});
          s2 = s1\<lparr>registered := insert ident (registered s1)\<rparr>;
          s3 = (if wasEmpty then s2\<lparr>isIndicating := True\<rparr> else s2)
      in (ident, s3))"

definition deregister :: "nat \<Rightarrow> ActivityIndicator_state \<Rightarrow> ActivityIndicator_state" where
  "deregister ident s =
     (let s1 = s\<lparr>registered := registered s - {ident}\<rparr>
      in if registered s1 = {} then s1\<lparr>isIndicating := False\<rparr> else s1)"

text \<open>A registry as the component mounts it, at any value of the module's counter.\<close>

definition mounted :: "nat \<Rightarrow> ActivityIndicator_state" where
  "mounted u = \<lparr>uniqueId = u, registered = {}, isIndicating = False\<rparr>"

datatype registry_op = Register | Deregister nat

fun apply_registry_op :: "ActivityIndicator_state \<Rightarrow> registry_op \<Rightarrow> ActivityIndicator_state" where
  "apply_registry_op s Register = snd (register s)"
| "apply_registry_op s (Deregister ident) = deregister ident s"

definition run_registry :: "registry_op list \<Rightarrow> ActivityIndicator_state \<Rightarrow> ActivityIndicator_state" where
  "run_registry ops s = foldl apply_registry_op s ops"

text \<open>Registering \<open>n\<close> times in a row: the tokens taken, in order, and the state.\<close>

fun register_times :: "nat \<Rightarrow> ActivityIndicator_state \<Rightarrow> nat list \<times> ActivityIndicator_state" where
  "register_times 0 s = ([], s)"
| "register_times (Suc n) s =
     (let (ident, s1) = register s; (ids, s2) = register_times n s1 in (ident # ids, s2))"

definition deregister_all :: "nat list \<Rightarrow> ActivityIndicator_state \<Rightarrow> ActivityIndicator_state" where
  "deregister_all ids s = foldl (\<lambda>st ident. deregister ident st) s ids"

text \<open>What holds of every registry a run of operations reaches.\<close>

definition registry_inv :: "ActivityIndicator_state \<Rightarrow> bool" where
  "registry_inv s = ((isIndicating s = (registered s \<noteq> {})) \<and> registered s \<subseteq> {..<uniqueId s})"

section \<open>useTimeout: the declarative timeout\<close>

text \<open>
  The \<open>delay\<close> argument is \<open>number | null | false\<close>; times are whole milliseconds.
  The hook keeps the ref \<open>currentCallback\<close>, the dependencies of its two effects as
  React remembers them from the last render, and the timer (the time at which the pending
  \<open>setTimeout\<close> fires, or \<open>None\<close>). One call of \<open>useTimeout\<close> is one render together
  with the effects React runs after it; the hook of an instance that has not rendered yet
  is \<open>None\<close>.
\<close>

datatype delay = Number nat | Null | JFalse

record 'c useTimeout_state =
  currentCallback :: 'c
  callbackDeps :: 'c
  delayDeps :: delay
  timer :: "nat option"

text \<open>
  The body of the second effect: \<open>if (typeof delay !== 'number') return;
  const id = setTimeout(fire, delay)\<close>.
\<close>

fun schedule :: "delay \<Rightarrow> nat \<Rightarrow> nat option" where
  "schedule (Number d) now = Some (now + d)"
| "schedule Null now = None"
| "schedule JFalse now = None"

text \<open>
  An effect runs after the first render, and after a later render when its dependency
  changed; the cleanup of the timer effect, \<open>clearTimeout(id)\<close>, runs before its body, so
  the old timer is replaced.
\<close>

definition useTimeout :: "'c \<Rightarrow> delay \<Rightarrow> nat \<Rightarrow> 'c useTimeout_state option \<Rightarrow> 'c useTimeout_state" where
  "useTimeout callback delay now hook =
     (case hook of
        None \<Rightarrow>
          \<lparr>currentCallback = callback, callbackDeps = callback, delayDeps = delay,
           timer = schedule delay now\<rparr>
      | Some h \<Rightarrow>
          \<lparr>currentCallback = (if callbackDeps h \<noteq> callback then callback else currentCallback h),
           callbackDeps = callback,
           delayDeps = delay,
           timer = (if delayDeps h \<noteq> delay then schedule delay now else timer h)\<rparr>)"

text \<open>The time at which the pending timer of a hook fires, when that is no later than \<open>limit\<close>.\<close>

definition due :: "nat \<Rightarrow> 'c useTimeout_state option \<Rightarrow> nat option" where
  "due limit hook =
     (case hook of
        None \<Rightarrow> None
      | Some h \<Rightarrow> (case timer h of None \<Rightarrow> None | Some t \<Rightarrow> if t \<le> limit then Some t else None))"

text \<open>
  A component that only calls \<open>useTimeout\<close>: the clock, the hook, and the log of the
  callbacks the timer has run with the time of each run. \<open>fire\<close> reads the ref when the
  timer fires. \<open>Wait n\<close> lets \<open>n\<close> milliseconds pass.
\<close>

record 'c timeout_world =
  tw_now :: nat
  tw_hook :: "'c useTimeout_state option"
  tw_fired :: "(nat \<times> 'c) list"

datatype 'c timeout_event = Call 'c delay | Wait nat

definition timeout_init :: "'c timeout_world" where
  "timeout_init = \<lparr>tw_now = 0, tw_hook = None, tw_fired = []\<rparr>"

fun timeout_step :: "'c timeout_world \<Rightarrow> 'c timeout_event \<Rightarrow> 'c timeout_world" where
  "timeout_step w (Call callback delay) =
     w\<lparr>tw_hook := Some (useTimeout callback delay (tw_now w) (tw_hook w))\<rparr>"
| "timeout_step w (Wait n) =
     (case tw_hook w of
        None \<Rightarrow> w\<lparr>tw_now := tw_now w + n\<rparr>
      | Some h \<Rightarrow>
          (case due (tw_now w + n) (Some h) of
             None \<Rightarrow> w\<lparr>tw_now := tw_now w + n\<rparr>
           | Some t \<Rightarrow>
               \<lparr>tw_now = tw_now w + n,
                tw_hook = Some (h\<lparr>timer := None\<rparr>),
                tw_fired = tw_fired w @ [(t, currentCallback h)]\<rparr>))"

definition timeout_run :: "'c timeout_event list \<Rightarrow> 'c timeout_world \<Rightarrow> 'c timeout_world" where
  "timeout_run es w = foldl timeout_step w es"

section \<open>useActivityIndicator and useRemoteLatest with options\<close>

text \<open>
  \<open>useActivityIndicator(hasActivity, timeoutBeforeShow = 250)\<close> keeps the state \<open>show\<close>
  (\<open>showState\<close> here), the hook of \<open>useTimeout\<close>, the value of \<open>show\<close> the registering
  effect last ran with, and the token whose deregister function that effect returned as
  its cleanup. \<open>context\<close> is the registry of the nearest \<open>ActivityIndicator\<close>; its
  registrar is memoized once, so the effect runs again only when \<open>show\<close> changes. The
  update \<open>setShow(false)\<close> is made while rendering: React renders again at once, and the
  effects are those of that render.
\<close>

record useActivityIndicator_state =
  showState :: bool
  showTimer :: "unit useTimeout_state"
  showDeps :: bool
  registration :: "nat option"

definition useActivityIndicator ::
  "bool \<Rightarrow> nat option \<Rightarrow> nat \<Rightarrow> useActivityIndicator_state option \<Rightarrow> ActivityIndicator_state
     \<Rightarrow> useActivityIndicator_state \<times> ActivityIndicator_state" where
  "useActivityIndicator hasActivity timeoutBeforeShow now hook context =
     (let timeout = (case timeoutBeforeShow of None \<Rightarrow> 250 | Some t \<Rightarrow> t);
          show0 = (case hook of None \<Rightarrow> False | Some h \<Rightarrow> showState h);
          show1 = (if \<not> hasActivity \<and> show0 then False else show0);
          tm = useTimeout () (if hasActivity then Number timeout else JFalse) now
                 (map_option showTimer hook);
          rerun = (case hook of None \<Rightarrow> True | Some h \<Rightarrow> showDeps h \<noteq> show1);
          old = (case hook of None \<Rightarrow> None | Some h \<Rightarrow> registration h);
          cleaned = (case old of None \<Rightarrow> context | Some ident \<Rightarrow> deregister ident context)
      in if rerun
         then (if show1
               then (\<lparr>showState = show1, showTimer = tm, showDeps = show1,
                      registration = Some (fst (register cleaned))\<rparr>, snd (register cleaned))
               else (\<lparr>showState = show1, showTimer = tm, showDeps = show1,
                      registration = None\<rparr>, cleaned))
         else (\<lparr>showState = show1, showTimer = tm, showDeps = show1, registration = old\<rparr>,
               context))"

text \<open>
  \<open>useRemoteLatest(data, options)\<close>, the version that reports to the registry: the slot
  as before, then \<open>isShowingOld = shown.current !== data\<close> and
  \<open>useActivityIndicator(isShowingOld && !options.hideIndicator,
  options.indicatorTimeout)\<close>. A field of \<open>options\<close> left out is \<open>None\<close>.
\<close>

record RemoteLatestOptions =
  hideIndicator :: "bool option"
  indicatorTimeout :: "nat option"

record 'a useRemoteLatest_state =
  shown :: "'a RemoteData"
  activity :: useActivityIndicator_state

definition hidden :: "RemoteLatestOptions \<Rightarrow> bool" where
  "hidden options = (case hideIndicator options of None \<Rightarrow> False | Some b \<Rightarrow> b)"

definition threshold :: "RemoteLatestOptions \<Rightarrow> nat" where
  "threshold options = (case indicatorTimeout options of None \<Rightarrow> 250 | Some t \<Rightarrow> t)"

definition useRemoteLatest_reporting ::
  "'a RemoteData \<Rightarrow> RemoteLatestOptions \<Rightarrow> nat \<Rightarrow> 'a useRemoteLatest_state option
     \<Rightarrow> ActivityIndicator_state
     \<Rightarrow> 'a useRemoteLatest_state \<times> ActivityIndicator_state \<times> 'a RemoteData" where
  "useRemoteLatest_reporting data options now hook context =
     (let shown1 = useRemoteLatest (map_option shown hook) data;
          isShowingOld = strict_neq shown1 data;
          (act, context1) = useActivityIndicator (isShowingOld \<and> \<not> hidden options)
                              (indicatorTimeout options) now (map_option activity hook) context
      in (\<lparr>shown = shown1, activity = act\<rparr>, context1, shown1))"

text \<open>
  The hook in time, under a registry: the clock, the arguments of the last render, the
  state, the registry, and every value returned so far. When the timer fires, its
  callback \<open>setShow(true)\<close> sets the state, and if that changed it React renders again
  with the same arguments.
\<close>

datatype 'p timed_event = Render 'p | Elapse nat

record 'a latest_world =
  lw_now :: nat
  lw_args :: "('a RemoteData \<times> RemoteLatestOptions) option"
  lw_hook :: "'a useRemoteLatest_state option"
  lw_context :: ActivityIndicator_state
  lw_returned :: "'a RemoteData list"

definition latest_init :: "ActivityIndicator_state \<Rightarrow> 'a latest_world" where
  "latest_init context =
     \<lparr>lw_now = 0, lw_args = None, lw_hook = None, lw_context = context, lw_returned = []\<rparr>"

definition latest_render ::
  "'a RemoteData \<times> RemoteLatestOptions \<Rightarrow> 'a latest_world \<Rightarrow> 'a latest_world" where
  "latest_render args w =
     (let (h, context, result) =
            useRemoteLatest_reporting (fst args) (snd args) (lw_now w) (lw_hook w) (lw_context w)
      in w\<lparr>lw_args := Some args, lw_hook := Some h, lw_context := context,
           lw_returned := lw_returned w @ [result]\<rparr>)"

fun latest_step ::
  "'a latest_world \<Rightarrow> ('a RemoteData \<times> RemoteLatestOptions) timed_event \<Rightarrow> 'a latest_world" where
  "latest_step w (Render args) = latest_render args w"
| "latest_step w (Elapse n) =
     (case due (lw_now w + n) (map_option (showTimer \<circ> activity) (lw_hook w)) of
        None \<Rightarrow> w\<lparr>lw_now := lw_now w + n\<rparr>
      | Some t \<Rightarrow>
          (case (lw_hook w, lw_args w) of
             (Some h, Some args) \<Rightarrow>
               (let a = activity h;
                    fired = w\<lparr>lw_now := t,
                              lw_hook := Some (h\<lparr>activity :=
                                a\<lparr>showState := True,
                                  showTimer := (showTimer a)\<lparr>timer := None\<rparr>\<rparr>\<rparr>)\<rparr>;
                    again = (if showState a then fired else latest_render args fired)
                in again\<lparr>lw_now := lw_now w + n\<rparr>)
           | _ \<Rightarrow> w\<lparr>lw_now := lw_now w + n\<rparr>))"

definition latest_run ::
  "('a RemoteData \<times> RemoteLatestOptions) timed_event list \<Rightarrow> 'a latest_world \<Rightarrow> 'a latest_world" where
  "latest_run es w = foldl latest_step w es"

text \<open>The time that passes in a list of events, and the number of renders in it.\<close>

fun elapsed :: "'p timed_event list \<Rightarrow> nat" where
  "elapsed [] = 0"
| "elapsed (Render p # es) = elapsed es"
| "elapsed (Elapse n # es) = n + elapsed es"

fun render_count :: "'p timed_event list \<Rightarrow> nat" where
  "render_count [] = 0"
| "render_count (Render p # es) = Suc (render_count es)"
| "render_count (Elapse n # es) = render_count es"

text \<open>The props of the last render in a list of events.\<close>

fun last_render :: "'p timed_event list \<Rightarrow> 'p option" where
  "last_render [] = None"
| "last_render (Render p # es) = (case last_render es of None \<Rightarrow> Some p | Some q \<Rightarrow> Some q)"
| "last_render (Elapse n # es) = last_render es"

text \<open>An event of a stretch in which the data stays unsettled under the same options.\<close>

definition stays_stale ::
  "RemoteLatestOptions \<Rightarrow> ('a RemoteData \<times> RemoteLatestOptions) timed_event \<Rightarrow> bool" where
  "stays_stale options e =
     (case e of
        Render args \<Rightarrow> (fst args = NOT_ASKED \<or> fst args = LOADING) \<and> snd args = options
      | Elapse n \<Rightarrow> True)"

text \<open>An event whose render, if it is one, asks for no indicator.\<close>

definition hides :: "('a RemoteData \<times> RemoteLatestOptions) timed_event \<Rightarrow> bool" where
  "hides e = (case e of Render args \<Rightarrow> hidden (snd args) | Elapse n \<Rightarrow> True)"

text \<open>
  The activity hook at rest: nothing shown, no timer, nothing registered. It is what every
  render leaves behind that shows the value it was given.
\<close>

definition at_rest :: "useActivityIndicator_state" where
  "at_rest = \<lparr>showState = False,
              showTimer = \<lparr>currentCallback = (), callbackDeps = (), delayDeps = JFalse,
                            timer = None\<rparr>,
              showDeps = False, registration = None\<rparr>"

text \<open>
  The activity hook between renders: the registering effect has run with the current
  \<open>show\<close>, a token is held exactly while \<open>show\<close> is set, and a hook whose timer was last
  given \<open>false\<close> is at rest.
\<close>

definition coherent :: "useActivityIndicator_state \<Rightarrow> bool" where
  "coherent a = (showDeps a = showState a \<and> (registration a = None) = (\<not> showState a) \<and>
                 (delayDeps (showTimer a) \<noteq> JFalse \<or> a = at_rest))"

text \<open>What holds of every world a run reaches.\<close>

definition latest_inv :: "'a latest_world \<Rightarrow> bool" where
  "latest_inv w =
     (case lw_args w of
        None \<Rightarrow> lw_hook w = None
      | Some args \<Rightarrow>
          (case lw_hook w of
             None \<Rightarrow> False
           | Some h \<Rightarrow>
               (shown h = fst args \<or>
                isReady (shown h) \<and> (fst args = NOT_ASKED \<or> fst args = LOADING)) \<and>
               coherent (activity h) \<and>
               delayDeps (showTimer (activity h))
                 = (if strict_neq (shown h) (fst args) \<and> \<not> hidden (snd args)
                    then Number (threshold (snd args)) else JFalse)))"

text \<open>
  The world while a ready value \<open>r\<close> is kept over unsettled data, under options that
  ask for the indicator: the timer was set at \<open>t0\<close>, and \<open>fired\<close> tells whether it has
  run. \<open>c0\<close> is the registry as it was when the stretch began.
\<close>

definition stale_world ::
  "'a RemoteData \<Rightarrow> RemoteLatestOptions \<Rightarrow> ActivityIndicator_state \<Rightarrow> nat \<Rightarrow> nat \<Rightarrow> 'a RemoteData
     \<Rightarrow> 'a RemoteData list \<Rightarrow> bool \<Rightarrow> 'a latest_world" where
  "stale_world r options c0 t0 now x rs fired =
     \<lparr>lw_now = now, lw_args = Some (x, options),
      lw_hook = Some
        \<lparr>shown = r,
         activity =
           \<lparr>showState = fired,
            showTimer = \<lparr>currentCallback = (), callbackDeps = (),
                          delayDeps = Number (threshold options),
                          timer = (if fired then None else Some (t0 + threshold options))\<rparr>,
            showDeps = fired,
            registration = (if fired then Some (fst (register c0)) else None)\<rparr>\<rparr>,
      lw_context = (if fired then snd (register c0) else c0),
      lw_returned = rs\<rparr>"

text \<open>Whether a list of events has a wait in it.\<close>

fun time_passed :: "'p timed_event list \<Rightarrow> bool" where
  "time_passed [] = False"
| "time_passed (Render p # es) = time_passed es"
| "time_passed (Elapse n # es) = True"

text \<open>
  Whether the timer set at the start of a stretch has run by its end: the threshold has
  passed, in at least one wait (a timer of 0 ms runs in the next turn, not at once).
\<close>

definition reported :: "RemoteLatestOptions \<Rightarrow> 'p timed_event list \<Rightarrow> bool" where
  "reported options es = (threshold options \<le> elapsed es \<and> time_passed es)"

text \<open>The options of a caller that gives none.\<close>

definition default_options :: RemoteLatestOptions where
  "default_options = \<lparr>hideIndicator = None, indicatorTimeout = None\<rparr>"

section \<open>usePromise\<close>

text \<open>
  Promises are named by numbers (their identity); \<open>None\<close> is \<open>undefined\<close>. A promise
  settles once, resolved with a value or rejected with one. Each run of the effect with a
  promise makes one closure holding its own \<open>isStillRelevant\<close>, which the \<open>then\<close>
  callback reads and the cleanup clears; \<open>pw_closures\<close> lists the closures made so far,
  each with the promise it is attached to, and \<open>promiseCleanup\<close> is the closure React
  will clean up. \<open>data\<close> is the state of \<open>useState\<close>, which the hook returns; its
  setter \<open>setData\<close> is \<open>setState\<close>, and \<open>pw_call\<close> tells what each function value
  returns when called.
\<close>

datatype 'a outcome = Resolved "'a jsval" | Rejected "'a jsval"

text \<open>What \<open>promise.catch(RemoteData.failWith)\<close> hands to the \<open>then\<close> callback.\<close>

fun settle_result :: "'a outcome \<Rightarrow> 'a jsval" where
  "settle_result (Resolved v) = v"
| "settle_result (Rejected e) = failWith e"

record 'a usePromise_state =
  data :: "'a RemoteData"
  promiseDeps :: "nat option"
  promiseCleanup :: "nat option"

record 'a promise_world =
  pw_hook :: "'a usePromise_state option"
  pw_closures :: "(nat \<times> bool) list"
  pw_settled :: "nat \<Rightarrow> 'a outcome option"
  pw_call :: "nat \<Rightarrow> 'a jsval \<Rightarrow> 'a jsval"

text \<open>The cleanup \<open>isStillRelevant = false\<close> of the closure at an index.\<close>

fun clear_relevant :: "nat \<Rightarrow> (nat \<times> bool) list \<Rightarrow> (nat \<times> bool) list" where
  "clear_relevant i [] = []"
| "clear_relevant 0 ((p, r) # cs) = (p, False) # cs"
| "clear_relevant (Suc i) (c # cs) = c # clear_relevant i cs"

text \<open>
  The \<open>then\<close> callbacks of the closures attached to promise \<open>p\<close>, run in order on the
  state: \<open>if (isStillRelevant) setData(result)\<close>.
\<close>

definition deliver ::
  "(nat \<Rightarrow> 'a jsval \<Rightarrow> 'a jsval) \<Rightarrow> nat \<Rightarrow> 'a jsval \<Rightarrow> (nat \<times> bool) list \<Rightarrow> 'a RemoteData
     \<Rightarrow> 'a RemoteData" where
  "deliver call p result cs d =
     foldl (\<lambda>d (q, relevant). if q = p \<and> relevant then setState call result d else d) d cs"

text \<open>
  One render of \<open>usePromise(promise)\<close> with the effect React runs after it. The first
  render takes \<open>useState\<close>'s initial value. The effect runs after the first render and
  when the promise changed: the old cleanup, then the body. A promise that had settled
  before the effect attached to it calls the new callback at once, after \<open>setData(LOADING)\<close>.
  \<open>setData(NOT_ASKED)\<close> and \<open>setData(LOADING)\<close> store the sentinel, which is no function.
\<close>

definition usePromise :: "nat option \<Rightarrow> 'a promise_world \<Rightarrow> 'a promise_world" where
  "usePromise promise w =
     (let h0 = (case pw_hook w of
                  None \<Rightarrow> \<lparr>data = (if promise \<noteq> None then LOADING else NOT_ASKED),
                            promiseDeps = promise, promiseCleanup = None\<rparr>
                | Some h \<Rightarrow> h);
          rerun = (case pw_hook w of None \<Rightarrow> True | Some h \<Rightarrow> promiseDeps h \<noteq> promise)
      in if \<not> rerun then w
         else
           (let cs = (case promiseCleanup h0 of
                        None \<Rightarrow> pw_closures w
                      | Some i \<Rightarrow> clear_relevant i (pw_closures w))
            in case promise of
                 None \<Rightarrow>
                   w\<lparr>pw_hook := Some \<lparr>data = NOT_ASKED, promiseDeps = None, promiseCleanup = None\<rparr>,
                     pw_closures := cs\<rparr>
               | Some p \<Rightarrow>
                   w\<lparr>pw_hook := Some
                       \<lparr>data = (case pw_settled w p of
                                  None \<Rightarrow> LOADING
                                | Some out \<Rightarrow> setState (pw_call w) (settle_result out) LOADING),
                        promiseDeps = Some p, promiseCleanup = Some (length cs)\<rparr>,
                     pw_closures := cs @ [(p, True)]\<rparr>))"

text \<open>Promise \<open>p\<close> settles: the callbacks attached to it run. A settled promise stays as it is.\<close>

definition settle :: "nat \<Rightarrow> 'a outcome \<Rightarrow> 'a promise_world \<Rightarrow> 'a promise_world" where
  "settle p out w =
     (case pw_settled w p of
        Some old \<Rightarrow> w
      | None \<Rightarrow>
          w\<lparr>pw_settled := (pw_settled w)(p \<mapsto> out),
            pw_hook := map_option
              (\<lambda>h. h\<lparr>data := deliver (pw_call w) p (settle_result out) (pw_closures w) (data h)\<rparr>)
              (pw_hook w)\<rparr>)"

datatype 'a promise_event = Supply "nat option" | Settle nat "'a outcome"

fun promise_step :: "'a promise_world \<Rightarrow> 'a promise_event \<Rightarrow> 'a promise_world" where
  "promise_step w (Supply promise) = usePromise promise w"
| "promise_step w (Settle p out) = settle p out w"

definition promise_run :: "'a promise_event list \<Rightarrow> 'a promise_world \<Rightarrow> 'a promise_world" where
  "promise_run es w = foldl promise_step w es"

text \<open>
  An instance before its first render, among promises of which some have settled and
  function values that return what \<open>call\<close> says.
\<close>

definition promise_init ::
  "(nat \<Rightarrow> 'a jsval \<Rightarrow> 'a jsval) \<Rightarrow> (nat \<Rightarrow> 'a outcome option) \<Rightarrow> 'a promise_world" where
  "promise_init call st = \<lparr>pw_hook = None, pw_closures = [], pw_settled = st, pw_call = call\<rparr>"

text \<open>The state the hook returns, and the promise it was last given.\<close>

definition exposed :: "'a promise_world \<Rightarrow> 'a RemoteData option" where
  "exposed w = map_option data (pw_hook w)"

definition watched :: "'a promise_world \<Rightarrow> nat option" where
  "watched w = (case pw_hook w of None \<Rightarrow> None | Some h \<Rightarrow> promiseDeps h)"

definition is_supply_of :: "nat option \<Rightarrow> 'a promise_event \<Rightarrow> bool" where
  "is_supply_of promise e = (case e of Supply q \<Rightarrow> q = promise | Settle p out \<Rightarrow> True)"

section \<open>RemoteSuspense\<close>

text \<open>
  What a component renders: \<open>null\<close>, a boolean (React shows nothing for either), a
  fragment of children, or any other node. \<open>failureFallback\<close> is a node or a function of
  the error; the test \<open>typeof failureFallback === 'function' && !isElement(failureFallback)\<close>
  tells the two apart. The props a caller may leave out are options, and the defaults of
  the source are written in \<open>RemoteSuspense\<close>. \<open>rsData\<close> is the prop \<open>data\<close>.
\<close>

datatype 'n ReactNode = NullNode | Bool bool | Element 'n | Fragment "'n ReactNode list"

datatype ('a, 'n) fallback = Node "'n ReactNode" | Function "'a jsval \<Rightarrow> 'n ReactNode"

record ('a, 'n) RemoteSuspenseProps =
  rsData :: "'a RemoteData"
  loadingTimeout :: "nat option"
  loadingFallback :: "'n ReactNode option"
  failureFallback :: "('a, 'n) fallback option"
  children :: "'a jsval \<Rightarrow> 'n ReactNode"

record RemoteSuspense_state =
  showLoading :: bool
  loadingTimer :: "unit useTimeout_state"

definition timeout_of :: "('a, 'n) RemoteSuspenseProps \<Rightarrow> nat" where
  "timeout_of props = (case loadingTimeout props of None \<Rightarrow> 150 | Some t \<Rightarrow> t)"

definition loading_view :: "('a, 'n) RemoteSuspenseProps \<Rightarrow> 'n ReactNode" where
  "loading_view props = (case loadingFallback props of None \<Rightarrow> NullNode | Some n \<Rightarrow> n)"

definition failure_view :: "('a, 'n) RemoteSuspenseProps \<Rightarrow> ('a, 'n) fallback" where
  "failure_view props = (case failureFallback props of None \<Rightarrow> Function (\<lambda>e. NullNode) | Some f \<Rightarrow> f)"

text \<open>
  One render of the component at time \<open>now\<close>, with the effects of \<open>useTimeout\<close>: the new
  state and the element returned. Every callback given to \<open>useTimeout\<close> is
  \<open>() => setShowLoading(true)\<close>, so the callbacks are of type \<open>unit\<close>. The update
  \<open>setShowLoading(false)\<close> is made while rendering: React renders again at once with
  the new state, and the element of that render is the one returned here.
\<close>

definition RemoteSuspense ::
  "('a, 'n) RemoteSuspenseProps \<Rightarrow> nat \<Rightarrow> RemoteSuspense_state option
     \<Rightarrow> RemoteSuspense_state \<times> 'n ReactNode" where
  "RemoteSuspense props now hook =
     (let showLoading0 = (case hook of None \<Rightarrow> False | Some h \<Rightarrow> showLoading h);
          isLoading = (rsData props = LOADING);
          tm = useTimeout () (if isLoading then Number (timeout_of props) else JFalse) now
                 (map_option loadingTimer hook);
          showLoading1 = (if \<not> isLoading \<and> showLoading0 then False else showLoading0);
          element =
            (case rsData props of
               NOT_ASKED \<Rightarrow> Fragment []
             | LOADING \<Rightarrow> Fragment [if showLoading1 then loading_view props else Bool False]
             | Failure e \<Rightarrow>
                 Fragment [case failure_view props of Function f \<Rightarrow> f e | Node n \<Rightarrow> n]
             | Plain v \<Rightarrow> Fragment [children props (Plain v)]
             | NaN \<Rightarrow> Fragment [children props NaN]
             | Func f \<Rightarrow> Fragment [children props (Func f)])
      in (\<lparr>showLoading = showLoading1, loadingTimer = tm\<rparr>, element))"

text \<open>
  The component in time: the clock, the props of the last render, the state, and every
  element rendered so far. When the timer fires, its callback sets \<open>showLoading\<close>, and if
  that changed the state React renders again with the same props.
\<close>

record ('a, 'n) suspense_world =
  sw_now :: nat
  sw_props :: "('a, 'n) RemoteSuspenseProps option"
  sw_hook :: "RemoteSuspense_state option"
  sw_rendered :: "'n ReactNode list"

definition suspense_init :: "('a, 'n) suspense_world" where
  "suspense_init = \<lparr>sw_now = 0, sw_props = None, sw_hook = None, sw_rendered = []\<rparr>"

definition suspense_render ::
  "('a, 'n) RemoteSuspenseProps \<Rightarrow> ('a, 'n) suspense_world \<Rightarrow> ('a, 'n) suspense_world" where
  "suspense_render props w =
     (let (h, element) = RemoteSuspense props (sw_now w) (sw_hook w)
      in w\<lparr>sw_props := Some props, sw_hook := Some h, sw_rendered := sw_rendered w @ [element]\<rparr>)"

fun suspense_step ::
  "('a, 'n) suspense_world \<Rightarrow> ('a, 'n) RemoteSuspenseProps timed_event \<Rightarrow> ('a, 'n) suspense_world" where
  "suspense_step w (Render props) = suspense_render props w"
| "suspense_step w (Elapse n) =
     (case due (sw_now w + n) (map_option loadingTimer (sw_hook w)) of
        None \<Rightarrow> w\<lparr>sw_now := sw_now w + n\<rparr>
      | Some t \<Rightarrow>
          (case (sw_hook w, sw_props w) of
             (Some h, Some props) \<Rightarrow>
               (let fired = w\<lparr>sw_now := t,
                              sw_hook := Some (h\<lparr>showLoading := True,
                                                 loadingTimer := (loadingTimer h)\<lparr>timer := None\<rparr>\<rparr>)\<rparr>;
                    again = (if showLoading h then fired else suspense_render props fired)
                in again\<lparr>sw_now := sw_now w + n\<rparr>)
           | _ \<Rightarrow> w\<lparr>sw_now := sw_now w + n\<rparr>))"

definition suspense_run ::
  "('a, 'n) RemoteSuspenseProps timed_event list \<Rightarrow> ('a, 'n) suspense_world \<Rightarrow> ('a, 'n) suspense_world" where
  "suspense_run es w = foldl suspense_step w es"

text \<open>An event of a stretch in which the data stays \<open>LOADING\<close> under timeout \<open>D\<close>.\<close>

definition stays_loading :: "nat \<Rightarrow> ('a, 'n) RemoteSuspenseProps timed_event \<Rightarrow> bool" where
  "stays_loading D e =
     (case e of Render props \<Rightarrow> rsData props = LOADING \<and> timeout_of props = D | Elapse n \<Rightarrow> True)"

text \<open>A history after which the data is not \<open>LOADING\<close>: it has no render, or its last one is not.\<close>

definition not_loading_after :: "('a, 'n) RemoteSuspenseProps timed_event list \<Rightarrow> bool" where
  "not_loading_after es =
     (case last_render es of None \<Rightarrow> True | Some props \<Rightarrow> rsData props \<noteq> LOADING)"

text \<open>What holds of every world a run reaches.\<close>

definition suspense_inv :: "('a, 'n) suspense_world \<Rightarrow> bool" where
  "suspense_inv w =
     (case sw_props w of
        None \<Rightarrow> sw_hook w = None
      | Some props \<Rightarrow>
          (case sw_hook w of
             None \<Rightarrow> False
           | Some h \<Rightarrow>
               delayDeps (loadingTimer h)
                 = (if rsData props = LOADING then Number (timeout_of props) else JFalse) \<and>
               (rsData props = LOADING \<or>
                (\<not> showLoading h \<and> timer (loadingTimer h) = None))))"

text \<open>A world in which nothing is loading: no flag, no timer.\<close>

definition quiet :: "('a, 'n) suspense_world \<Rightarrow> bool" where
  "quiet w =
     (case sw_hook w of
        None \<Rightarrow> True
      | Some h \<Rightarrow> \<not> showLoading h \<and> timer (loadingTimer h) = None \<and>
                  delayDeps (loadingTimer h) = JFalse)"

text \<open>Props for examples: a spinner after 150 ms, and content that shows the value.\<close>

definition example_props :: "nat RemoteData \<Rightarrow> (nat, string) RemoteSuspenseProps" where
  "example_props d =
     \<lparr>rsData = d, loadingTimeout = Some 150, loadingFallback = Some (Element ''spinner''),
      failureFallback = None,
      children = (\<lambda>v. case v of Plain n \<Rightarrow> Element (replicate n CHR ''A'') | _ \<Rightarrow> NullNode)\<rparr>"

text \<open>
  What holds of every world a run reaches: no closure is relevant but the last one made,
  and that one exactly while its promise is the one the hook was last given; until that
  promise settles the state is \<open>LOADING\<close>.
\<close>

definition all_irrelevant :: "(nat \<times> bool) list \<Rightarrow> bool" where
  "all_irrelevant cs = list_all (\<lambda>c. \<not> snd c) cs"

definition promise_inv :: "'a promise_world \<Rightarrow> bool" where
  "promise_inv w =
     (case pw_hook w of
        None \<Rightarrow> pw_closures w = []
      | Some h \<Rightarrow>
          (case promiseDeps h of
             None \<Rightarrow> promiseCleanup h = None \<and> all_irrelevant (pw_closures w)
           | Some p \<Rightarrow>
               (\<exists>older. pw_closures w = older @ [(p, True)] \<and> all_irrelevant older \<and>
                  promiseCleanup h = Some (length older)) \<and>
               (pw_settled w p \<noteq> None \<or> data h = LOADING)))"

section \<open>Properties of useRemoteLatest\<close>

lemma useRemoteLatest_settled:
  "isReady d \<or> isFailure d \<Longrightarrow> useRemoteLatest ref d = d"
  by (auto simp: useRemoteLatest_def Let_def)

lemma useRemoteLatest_stale:
  "isReady r \<Longrightarrow> d = NOT_ASKED \<or> d = LOADING \<Longrightarrow> useRemoteLatest (Some r) d = r"
  by (auto simp: useRemoteLatest_def isReady_def)

lemma renders_stale:
  "isReady r \<Longrightarrow> \<forall>d\<in>set ds. d = NOT_ASKED \<or> d = LOADING \<Longrightarrow>
     renders (Some r) ds = replicate (length ds) r"
  by (induction ds) (simp_all add: useRemoteLatest_stale Let_def)

lemma slot_after_stale:
  "isReady r \<Longrightarrow> \<forall>d\<in>set ds. d = NOT_ASKED \<or> d = LOADING \<Longrightarrow>
     slot_after (Some r) ds = Some r"
  by (induction ds) (simp_all add: useRemoteLatest_stale)

lemma renders_append:
  "renders ref (xs @ ys) = renders ref xs @ renders (slot_after ref xs) ys"
  by (induction xs arbitrary: ref) (simp_all add: Let_def)

lemma slot_after_append:
  "slot_after ref (xs @ ys) = slot_after (slot_after ref xs) ys"
  by (induction xs arbitrary: ref) simp_all

text \<open>
  C1. Feed one instance any values \<open>pre\<close>. If its slot then holds a ready value \<open>r\<close>,
  every further render given \<open>NOT_ASKED\<close> or \<open>LOADING\<close> returns \<open>r\<close> and leaves the slot
  alone; a render whose result differs from \<open>r\<close> was given a ready or a failed value; and
  a render given a ready or a failed value stores and returns that value. The version of
  the hook that takes options stores and returns the same value.
\<close>

theorem useRemoteLatest_keeps_ready:
  assumes "slot_after None pre = Some r" and "isReady r"
  shows "((\<forall>d\<in>set ds. d = NOT_ASKED \<or> d = LOADING) \<longrightarrow>
            renders None (pre @ ds) = renders None pre @ replicate (length ds) r \<and>
            slot_after None (pre @ ds) = Some r) \<and>
         (useRemoteLatest (slot_after None pre) d \<noteq> r \<longrightarrow> isReady d \<or> isFailure d) \<and>
         (isReady d \<or> isFailure d \<longrightarrow>
            useRemoteLatest (slot_after None pre) d = d \<and> slot_after None (pre @ [d]) = Some d) \<and>
         snd (snd (useRemoteLatest_reporting d options now hook context))
           = useRemoteLatest (map_option shown hook) d \<and>
         shown (fst (useRemoteLatest_reporting d options now hook context))
           = useRemoteLatest (map_option shown hook) d"
proof -
  have stale: "(\<forall>d\<in>set ds. d = NOT_ASKED \<or> d = LOADING) \<longrightarrow>
           renders None (pre @ ds) = renders None pre @ replicate (length ds) r \<and>
           slot_after None (pre @ ds) = Some r"
    using assms by (simp add: renders_append slot_after_append renders_stale slot_after_stale)
  have changed: "useRemoteLatest (slot_after None pre) d \<noteq> r \<longrightarrow> isReady d \<or> isFailure d"
    using assms by (auto simp: useRemoteLatest_def Let_def)
  have settled: "isReady d \<or> isFailure d \<longrightarrow>
           useRemoteLatest (slot_after None pre) d = d \<and> slot_after None (pre @ [d]) = Some d"
    by (simp add: slot_after_append useRemoteLatest_settled)
  have reporting: "snd (snd (useRemoteLatest_reporting d options now hook context))
           = useRemoteLatest (map_option shown hook) d \<and>
         shown (fst (useRemoteLatest_reporting d options now hook context))
           = useRemoteLatest (map_option shown hook) d"
    by (simp add: useRemoteLatest_reporting_def Let_def split_beta)
  from stale changed settled reporting show ?thesis by blast
qed

theorem useRemoteLatest_keeps_ready_witness:
  "renders None [LOADING, Plain (1::nat), LOADING, NOT_ASKED] = [LOADING, Plain 1, Plain 1, Plain 1] \<and>
   slot_after None [LOADING, Plain (1::nat), LOADING, NOT_ASKED] = Some (Plain 1) \<and>
   useRemoteLatest (Some (Plain (1::nat))) (Failure (Plain 7)) = Failure (Plain 7) \<and>
   slot_after None [LOADING, Plain (1::nat), Failure (Plain 7)] = Some (Failure (Plain 7))"
proof -
  have slot: "slot_after None [LOADING, Plain (1::nat)] = Some (Plain 1)"
    by (simp add: useRemoteLatest_def isReady_def)
  have ready: "isReady (Plain (1::nat))"
    by (simp add: isReady_def)
  show ?thesis
    using useRemoteLatest_keeps_ready [OF slot ready, of "[LOADING, NOT_ASKED]" "Failure (Plain 7)"]
    by (simp add: useRemoteLatest_def isReady_def Let_def)
qed

section \<open>Properties of the registry\<close>

lemma mounted_inv: "registry_inv (mounted u)"
  by (simp add: registry_inv_def mounted_def)

lemma register_inv: "registry_inv s \<Longrightarrow> registry_inv (snd (register s))"
  by (auto simp: registry_inv_def register_def Let_def)

lemma deregister_inv: "registry_inv s \<Longrightarrow> registry_inv (deregister ident s)"
  by (auto simp: registry_inv_def deregister_def Let_def)

lemma apply_registry_op_inv: "registry_inv s \<Longrightarrow> registry_inv (apply_registry_op s x)"
  by (cases x) (simp_all add: register_inv deregister_inv)

lemma run_registry_inv: "registry_inv s \<Longrightarrow> registry_inv (run_registry ops s)"
  unfolding run_registry_def
  by (induction ops arbitrary: s) (simp_all add: apply_registry_op_inv)

lemma register_fields:
  "fst (register s) = uniqueId s"
  "uniqueId (snd (register s)) = Suc (uniqueId s)"
  "registered (snd (register s)) = insert (uniqueId s) (registered s)"
  by (simp_all add: register_def Let_def)

lemma deregister_fields:
  "uniqueId (deregister ident s) = uniqueId s"
  "registered (deregister ident s) = registered s - {ident}"
  by (simp_all add: deregister_def Let_def)

lemma register_times_fields:
  "registry_inv s \<Longrightarrow>
     fst (register_times n s) = [uniqueId s ..< uniqueId s + n] \<and>
     registered (snd (register_times n s)) = registered s \<union> {uniqueId s ..< uniqueId s + n} \<and>
     registry_inv (snd (register_times n s))"
proof (induction n arbitrary: s)
  case 0
  then show ?case by simp
next
  case (Suc n)
  let ?s1 = "snd (register s)"
  have inv1: "registry_inv ?s1" using Suc.prems by (rule register_inv)
  note ih = Suc.IH [OF inv1]
  have eq: "register_times (Suc n) s =
      (uniqueId s # fst (register_times n ?s1), snd (register_times n ?s1))"
    by (simp add: split_beta register_fields Let_def)
  have up: "[uniqueId s ..< uniqueId s + Suc n] =
      uniqueId s # [Suc (uniqueId s) ..< Suc (uniqueId s) + n]"
    by (simp add: upt_rec)
  have st: "{uniqueId s ..< uniqueId s + Suc n} =
      insert (uniqueId s) {Suc (uniqueId s) ..< Suc (uniqueId s) + n}"
    by auto
  show ?case
    unfolding eq up st using ih by (simp add: register_fields)
qed

lemma deregister_all_fields:
  "registry_inv s \<Longrightarrow>
     registered (deregister_all ds s) = registered s - set ds \<and>
     registry_inv (deregister_all ds s)"
  unfolding deregister_all_def
proof (induction ds arbitrary: s)
  case Nil
  then show ?case by simp
next
  case (Cons d ds)
  have inv1: "registry_inv (deregister d s)" using Cons.prems by (rule deregister_inv)
  show ?case using Cons.IH [OF inv1] by (auto simp: deregister_fields)
qed

lemma deregister_absent:
  "registry_inv s \<Longrightarrow> ident \<notin> registered s \<Longrightarrow> deregister ident s = s"
  by (cases s) (auto simp: registry_inv_def deregister_def Let_def)

lemma apply_registry_op_absent:
  "ident < uniqueId s \<Longrightarrow> ident \<notin> registered s \<Longrightarrow>
     ident < uniqueId (apply_registry_op s x) \<and> ident \<notin> registered (apply_registry_op s x)"
  by (cases x) (auto simp: register_fields deregister_fields)

lemma run_registry_absent:
  "ident < uniqueId s \<Longrightarrow> ident \<notin> registered s \<Longrightarrow>
     ident < uniqueId (run_registry ops s) \<and> ident \<notin> registered (run_registry ops s)"
  unfolding run_registry_def
proof (induction ops arbitrary: s)
  case Nil
  then show ?case by simp
next
  case (Cons x ops)
  from apply_registry_op_absent [OF Cons.prems, of x] Cons.IH [of "apply_registry_op s x"]
  show ?case by simp
qed

lemma run_registry_uniqueId: "uniqueId s \<le> uniqueId (run_registry ops s)"
  unfolding run_registry_def
proof (induction ops arbitrary: s)
  case Nil
  then show ?case by simp
next
  case (Cons x ops)
  have "uniqueId s \<le> uniqueId (apply_registry_op s x)"
    by (cases x) (simp_all add: register_fields deregister_fields)
  with Cons.IH [of "apply_registry_op s x"] show ?case by simp
qed

text \<open>
  C3. After any operations on a registry, in any order, \<open>isIndicating\<close> is true exactly
  when the set of tokens is not empty. Register \<open>n\<close> times on a fresh registry and
  deregister some of the tokens taken: \<open>isIndicating\<close> is true as long as a token is left
  (after \<open>n - 1\<close> of them, say) and false once all \<open>n\<close> are deregistered.
\<close>

theorem registry_aggregate:
  "isIndicating (run_registry ops (mounted u)) = (registered (run_registry ops (mounted u)) \<noteq> {}) \<and>
   (\<forall>ds. set ds \<subseteq> set (fst (register_times n (mounted u))) \<longrightarrow>
      isIndicating (deregister_all ds (snd (register_times n (mounted u))))
        = (set ds \<noteq> set (fst (register_times n (mounted u)))))"
proof -
  have a: "isIndicating (run_registry ops (mounted u)) = (registered (run_registry ops (mounted u)) \<noteq> {})"
    using run_registry_inv [OF mounted_inv, of ops u] by (simp add: registry_inv_def)
  have f: "fst (register_times n (mounted u)) = [u ..< u + n]"
     "registered (snd (register_times n (mounted u))) = {u ..< u + n}"
     "registry_inv (snd (register_times n (mounted u)))"
    using register_times_fields [OF mounted_inv, of n u] by (simp_all add: mounted_def)
  have b: "isIndicating (deregister_all ds (snd (register_times n (mounted u))))
        = (set ds \<noteq> set (fst (register_times n (mounted u))))"
    if "set ds \<subseteq> set (fst (register_times n (mounted u)))" for ds
  proof -
    have "registered (deregister_all ds (snd (register_times n (mounted u)))) = {u ..< u + n} - set ds"
      and "registry_inv (deregister_all ds (snd (register_times n (mounted u))))"
      using deregister_all_fields [OF f(3), of ds] by (simp_all add: f(2))
    then show ?thesis using that unfolding registry_inv_def f(1) by auto
  qed
  show ?thesis using a b by blast
qed

theorem registry_aggregate_witness:
  "isIndicating (deregister_all [2, 0] (snd (register_times 3 (mounted 0)))) \<and>
   \<not> isIndicating (deregister_all [2, 0, 1] (snd (register_times 3 (mounted 0))))"
proof -
  have ids: "fst (register_times 3 (mounted 0)) = [0, 1, 2]"
    by (simp add: numeral_3_eq_3 register_def mounted_def Let_def)
  note rule = registry_aggregate [of "[]" 0 3, THEN conjunct2, rule_format, unfolded ids]
  have "(1::nat) \<notin> set [2, 0]" by simp
  then have "set [2, 0::nat] \<noteq> set [0, 1, 2]" by (metis list.set_intros(1,2))
  then have two: "isIndicating (deregister_all [2, 0] (snd (register_times 3 (mounted 0))))"
    using rule [of "[2, 0]"] by simp
  have "set [2, 0, 1::nat] = set [0, 1, 2]" by (simp add: insert_commute)
  then have three: "\<not> isIndicating (deregister_all [2, 0, 1] (snd (register_times 3 (mounted 0))))"
    using rule [of "[2, 0, 1]"] by simp
  from two three show ?thesis by simp
qed

text \<open>
  C9. Take a token from a registry that any operations have reached, let any operations
  follow, and call the token's deregister function: the set loses exactly that token.
  Calling it again, at once or after any further operations, changes nothing: neither the
  set nor \<open>isIndicating\<close> nor the counter.
\<close>

theorem deregister_idempotent:
  "(let s = run_registry ops (mounted u);
        ident = fst (register s);
        s1 = run_registry ops1 (snd (register s));
        s2 = deregister ident s1
    in registered s2 = registered s1 - {ident} \<and>
       deregister ident s2 = s2 \<and>
       deregister ident (run_registry ops2 s2) = run_registry ops2 s2)"
proof -
  define s where "s = run_registry ops (mounted u)"
  define ident where "ident = fst (register s)"
  define s1 where "s1 = run_registry ops1 (snd (register s))"
  define s2 where "s2 = deregister ident s1"
  have inv: "registry_inv s"
    unfolding s_def by (rule run_registry_inv [OF mounted_inv])
  have inv1: "registry_inv s1"
    unfolding s1_def by (rule run_registry_inv [OF register_inv [OF inv]])
  have inv2: "registry_inv s2"
    unfolding s2_def by (rule deregister_inv [OF inv1])
  have "uniqueId (snd (register s)) \<le> uniqueId s1"
    unfolding s1_def by (rule run_registry_uniqueId)
  then have lt: "ident < uniqueId s2"
    by (simp add: ident_def s2_def register_fields deregister_fields)
  have absent: "ident \<notin> registered s2"
    by (simp add: s2_def deregister_fields)
  have a: "registered s2 = registered s1 - {ident}"
    by (simp add: s2_def deregister_fields)
  have b: "deregister ident s2 = s2"
    using inv2 absent by (rule deregister_absent)
  have c: "deregister ident (run_registry ops2 s2) = run_registry ops2 s2"
    using run_registry_inv [OF inv2, of ops2] run_registry_absent [OF lt absent, of ops2]
    by (simp add: deregister_absent)
  show ?thesis
    using a b c
    unfolding Let_def s_def [symmetric] ident_def [symmetric] s1_def [symmetric] s2_def [symmetric]
    by simp
qed

section \<open>Properties of useTimeout\<close>

lemma timeout_run_Nil: "timeout_run [] w = w"
  by (simp add: timeout_run_def)

lemma timeout_run_Cons: "timeout_run (e # es) w = timeout_run es (timeout_step w e)"
  by (simp add: timeout_run_def)

lemma timeout_run_append: "timeout_run (es @ fs) w = timeout_run fs (timeout_run es w)"
  by (simp add: timeout_run_def)

lemma timeout_waits_idle:
  "tw_hook w = Some h \<Longrightarrow> timer h = None \<Longrightarrow>
   tw_fired (timeout_run (map Wait ns) w) = tw_fired w"
proof (induction ns arbitrary: w)
  case Nil
  then show ?case by (simp add: timeout_run_Nil)
next
  case (Cons n ns)
  have st: "timeout_step w (Wait n) = w\<lparr>tw_now := tw_now w + n\<rparr>"
    using Cons.prems by (simp add: due_def)
  have "tw_hook (w\<lparr>tw_now := tw_now w + n\<rparr>) = Some h" using Cons.prems by simp
  from Cons.IH [OF this Cons.prems(2)] show ?case
    by (simp add: timeout_run_Cons st del: timeout_step.simps)
qed

lemma timeout_waits_armed:
  "tw_hook w = Some h \<Longrightarrow> timer h = Some t \<Longrightarrow>
   tw_fired (timeout_run (map Wait (n # ns)) w) =
     tw_fired w @ (if t \<le> tw_now w + n + sum_list ns then [(t, currentCallback h)] else [])"
proof (induction ns arbitrary: w n)
  case Nil
  then show ?case
    by (simp add: timeout_run_Cons timeout_run_Nil due_def)
next
  case (Cons m ns)
  show ?case
  proof (cases "t \<le> tw_now w + n")
    case True
    let ?w' = "timeout_step w (Wait n)"
    have h': "tw_hook ?w' = Some (h\<lparr>timer := None\<rparr>)"
      and f': "tw_fired ?w' = tw_fired w @ [(t, currentCallback h)]"
      using True Cons.prems by (simp_all add: due_def)
    have "tw_fired (timeout_run (map Wait (m # ns)) ?w') = tw_fired ?w'"
      by (rule timeout_waits_idle [OF h']) simp
    then show ?thesis
      using True by (simp add: timeout_run_Cons [of "Wait n"] f' del: timeout_step.simps)
  next
    case False
    have st: "timeout_step w (Wait n) = w\<lparr>tw_now := tw_now w + n\<rparr>"
      using False Cons.prems by (simp add: due_def)
    have "tw_hook (w\<lparr>tw_now := tw_now w + n\<rparr>) = Some h" using Cons.prems by simp
    from Cons.IH [OF this Cons.prems(2), of m] show ?thesis
      by (simp add: timeout_run_Cons [of "Wait n"] st add.assoc del: timeout_step.simps)
  qed
qed

lemma recall_same_delay:
  "T < D \<Longrightarrow>
   timeout_run [Call c1 (Number D), Wait T, Call c2 (Number D)] timeout_init =
     \<lparr>tw_now = T,
      tw_hook = Some \<lparr>currentCallback = c2, callbackDeps = c2, delayDeps = Number D, timer = Some D\<rparr>,
      tw_fired = []\<rparr>"
  by (simp add: timeout_run_def timeout_init_def useTimeout_def due_def)

lemma recall_other_delay:
  "T < D \<Longrightarrow> D' \<noteq> D \<Longrightarrow>
   timeout_run [Call c1 (Number D), Wait T, Call c2 (Number D')] timeout_init =
     \<lparr>tw_now = T,
      tw_hook = Some \<lparr>currentCallback = c2, callbackDeps = c2, delayDeps = Number D',
                      timer = Some (T + D')\<rparr>,
      tw_fired = []\<rparr>"
  by (simp add: timeout_run_def timeout_init_def useTimeout_def due_def)

text \<open>
  C5, as the code has it. Call the hook with delay \<open>D\<close> at time 0 and again at time
  \<open>T < D\<close>, then let time pass. When the second call gives a different delay \<open>D'\<close>, the
  callback runs once, at \<open>T + D'\<close>. When it gives the same delay \<open>D\<close>, the pending timer
  stays and the callback runs once, at \<open>D\<close>.
\<close>

theorem useTimeout_resets_on_changed_delay:
  assumes "T < D"
  shows "(D' \<noteq> D \<longrightarrow>
            tw_fired (timeout_run ([Call c1 (Number D), Wait T, Call c2 (Number D')]
                                    @ map Wait (n # ns)) timeout_init)
              = (if T + D' \<le> T + n + sum_list ns then [(T + D', c2)] else [])) \<and>
         tw_fired (timeout_run ([Call c1 (Number D), Wait T, Call c2 (Number D)]
                                 @ map Wait (n # ns)) timeout_init)
           = (if D \<le> T + n + sum_list ns then [(D, c2)] else [])"
proof -
  have other: "D' \<noteq> D \<longrightarrow>
      tw_fired (timeout_run ([Call c1 (Number D), Wait T, Call c2 (Number D')]
                              @ map Wait (n # ns)) timeout_init)
        = (if T + D' \<le> T + n + sum_list ns then [(T + D', c2)] else [])"
    unfolding timeout_run_append using assms
    by (auto simp add: recall_other_delay timeout_waits_armed simp del: list.map)
  have same: "tw_fired (timeout_run ([Call c1 (Number D), Wait T, Call c2 (Number D)]
                                      @ map Wait (n # ns)) timeout_init)
        = (if D \<le> T + n + sum_list ns then [(D, c2)] else [])"
    unfolding timeout_run_append using assms
    by (simp add: recall_same_delay timeout_waits_armed del: list.map)
  from other same show ?thesis by simp
qed

theorem useTimeout_resets_on_changed_delay_witness:
  "tw_fired (timeout_run [Call (0::nat) (Number 1000), Wait 500, Call 0 (Number 750), Wait 400, Wait 400]
      timeout_init) = [(1250, 0)] \<and>
   tw_fired (timeout_run [Call (0::nat) (Number 1000), Wait 500, Call 0 (Number 1000), Wait 400, Wait 400]
      timeout_init) = [(1000, 0)]"
  using useTimeout_resets_on_changed_delay [of 500 1000 750 "0::nat" 0 400 "[400]"]
  by simp

theorem useTimeout_same_delay_counterexample:
  "tw_fired (timeout_run [Call (0::nat) (Number 100), Wait 40, Call 0 (Number 100), Wait 200]
      timeout_init) = [(100, 0)] \<and>
   tw_fired (timeout_run [Call (0::nat) (Number 100), Wait 40, Call 0 (Number 100), Wait 200]
      timeout_init) \<noteq> [(40 + 100, 0)]"
  by (simp add: timeout_run_def timeout_init_def useTimeout_def due_def)

text \<open>
  C6. Call the hook with callback \<open>c1\<close> and delay \<open>D\<close> at time 0, and at time \<open>T < D\<close>
  with another callback \<open>c2\<close> and the same delay: the timer still stands at \<open>D\<close>, nothing
  has run, and when time passes the timer runs \<open>c2\<close>, once, at \<open>D\<close>.
\<close>

theorem useTimeout_adopts_latest_callback:
  assumes "T < D"
  shows "map_option timer
           (tw_hook (timeout_run [Call c1 (Number D), Wait T, Call c2 (Number D)] timeout_init))
           = Some (Some D) \<and>
         tw_fired (timeout_run [Call c1 (Number D), Wait T, Call c2 (Number D)] timeout_init) = [] \<and>
         tw_fired (timeout_run ([Call c1 (Number D), Wait T, Call c2 (Number D)]
                                 @ map Wait (n # ns)) timeout_init)
           = (if D \<le> T + n + sum_list ns then [(D, c2)] else [])"
  unfolding timeout_run_append using assms
  by (simp add: recall_same_delay timeout_waits_armed del: list.map)

theorem useTimeout_adopts_latest_callback_witness:
  "map_option timer
     (tw_hook (timeout_run [Call (1::nat) (Number 250), Wait 100, Call 2 (Number 250)] timeout_init))
     = Some (Some 250) \<and>
   tw_fired (timeout_run [Call (1::nat) (Number 250), Wait 100, Call 2 (Number 250), Wait 200]
      timeout_init) = [(250, 2)]"
  using useTimeout_adopts_latest_callback [of 100 250 "1::nat" 2 200 "[]"]
  by simp

section \<open>Properties of usePromise\<close>

lemma clear_relevant_last:
  "clear_relevant (length older) (older @ [(p, r)]) = older @ [(p, False)]"
  by (induction older) auto

lemma setState_value: "\<not> isFunction v \<Longrightarrow> setState call v d = v"
  by (cases v) (simp_all add: setState_def)

lemma setState_function: "setState call (Func f) d = call f d"
  by (simp add: setState_def)

lemma deliver_irrelevant: "all_irrelevant cs \<Longrightarrow> deliver call p x cs d = d"
  unfolding deliver_def all_irrelevant_def
  by (induction cs arbitrary: d) (auto simp: split_beta)

lemma deliver_last:
  "all_irrelevant older \<Longrightarrow>
     deliver call p x (older @ [(q, True)]) d = (if q = p then setState call x d else d)"
  using deliver_irrelevant [of older call p x d]
  by (simp add: deliver_def)

lemma promise_init_inv: "promise_inv (promise_init call st)"
  by (simp add: promise_inv_def promise_init_def)

lemma usePromise_inv: "promise_inv w \<Longrightarrow> promise_inv (usePromise promise w)"
  by (cases promise)
     (auto simp: promise_inv_def usePromise_def Let_def all_irrelevant_def clear_relevant_last
           split: option.splits)

lemma settle_inv: "promise_inv w \<Longrightarrow> promise_inv (settle p out w)"
  by (auto simp: promise_inv_def settle_def deliver_last split: option.splits)

lemma promise_step_inv: "promise_inv w \<Longrightarrow> promise_inv (promise_step w e)"
  by (cases e) (simp_all add: usePromise_inv settle_inv)

lemma promise_run_inv: "promise_inv w \<Longrightarrow> promise_inv (promise_run es w)"
  unfolding promise_run_def
  by (induction es arbitrary: w) (simp_all add: promise_step_inv)

lemma call_step: "pw_call (promise_step w e) = pw_call w"
  by (cases e) (auto simp: usePromise_def settle_def Let_def split: option.splits)

lemma call_run: "pw_call (promise_run es w) = pw_call w"
  unfolding promise_run_def
  by (induction es arbitrary: w) (simp_all add: call_step del: promise_step.simps)

lemma settle_other:
  "promise_inv w \<Longrightarrow> watched w \<noteq> Some p \<Longrightarrow> exposed (settle p out w) = exposed w"
  by (auto simp: promise_inv_def watched_def exposed_def settle_def deliver_irrelevant deliver_last
           split: option.splits)

lemma settle_watched:
  "promise_inv w \<Longrightarrow> watched w = Some p \<Longrightarrow> pw_settled w p = None \<Longrightarrow>
     exposed (settle p out w) = Some (setState (pw_call w) (settle_result out) LOADING)"
  by (auto simp: promise_inv_def watched_def exposed_def settle_def deliver_last
           split: option.splits)

lemma watched_usePromise: "watched (usePromise promise w) = promise"
  by (cases promise) (auto simp: watched_def usePromise_def Let_def split: option.splits)

lemma watched_settle: "watched (settle p out w) = watched w"
  by (auto simp: watched_def settle_def split: option.splits)

lemma watched_kept:
  "watched w = promise \<Longrightarrow> \<forall>e\<in>set es. is_supply_of promise e \<Longrightarrow>
     watched (promise_run es w) = promise"
  unfolding promise_run_def
proof (induction es arbitrary: w)
  case Nil
  then show ?case by simp
next
  case (Cons e es)
  have "watched (promise_step w e) = promise"
    using Cons.prems by (cases e) (simp_all add: watched_usePromise watched_settle is_supply_of_def)
  with Cons show ?case by simp
qed

text \<open>
  C2. After any history \<open>es\<close>, give the hook promise \<open>P1\<close> and then another promise
  \<open>P2\<close>; let anything follow in which the hook is given no other promise than \<open>P2\<close>
  (renders with \<open>P2\<close>, settlements of any promise). When \<open>P1\<close> then settles, with any
  outcome, the state the hook returns is what it was; the step has no error to raise. More
  generally, in any world a run reaches, the settlement of a promise other than the one
  last given leaves the returned state alone.
\<close>

theorem usePromise_drops_superseded:
  assumes "P1 \<noteq> P2" and "\<forall>e\<in>set later. is_supply_of (Some P2) e"
  shows "exposed (settle P1 out
            (promise_run (es @ [Supply (Some P1), Supply (Some P2)] @ later) (promise_init call st)))
           = exposed (promise_run (es @ [Supply (Some P1), Supply (Some P2)] @ later) (promise_init call st)) \<and>
         (watched (promise_run es (promise_init call st)) \<noteq> Some p \<longrightarrow>
            exposed (settle p out (promise_run es (promise_init call st)))
              = exposed (promise_run es (promise_init call st)))"
proof -
  let ?w = "promise_run (es @ [Supply (Some P1), Supply (Some P2)]) (promise_init call st)"
  let ?v = "promise_run (es @ [Supply (Some P1), Supply (Some P2)] @ later) (promise_init call st)"
  have "watched ?w = Some P2"
    by (simp add: promise_run_def watched_usePromise)
  then have "watched (promise_run later ?w) = Some P2"
    using assms(2) by (rule watched_kept)
  then have w: "watched ?v \<noteq> Some P1"
    using assms(1) by (simp add: promise_run_def)
  have first: "exposed (settle P1 out ?v) = exposed ?v"
    by (rule settle_other [OF promise_run_inv [OF promise_init_inv] w])
  have second: "watched (promise_run es (promise_init call st)) \<noteq> Some p \<longrightarrow>
            exposed (settle p out (promise_run es (promise_init call st)))
              = exposed (promise_run es (promise_init call st))"
    using settle_other [OF promise_run_inv [OF promise_init_inv]] by blast
  from first second show ?thesis by simp
qed

theorem usePromise_drops_superseded_witness:
  "exposed (promise_run [Supply (Some 1), Supply (Some 2), Supply (Some 2)]
                (promise_init (\<lambda>f v. v) (\<lambda>p. None :: nat outcome option))) = Some LOADING \<and>
   exposed (settle 1 (Resolved (Plain (5::nat)))
             (promise_run [Supply (Some 1), Supply (Some 2), Supply (Some 2)]
                (promise_init (\<lambda>f v. v) (\<lambda>p. None)))) = Some LOADING"
proof -
  have later: "\<forall>e\<in>set [Supply (Some 2) :: nat promise_event]. is_supply_of (Some 2) e"
    by (simp add: is_supply_of_def)
  have now: "exposed (promise_run [Supply (Some 1), Supply (Some 2), Supply (Some 2)]
                (promise_init (\<lambda>f v. v) (\<lambda>p. None :: nat outcome option))) = Some LOADING"
    by (simp add: promise_run_def promise_init_def usePromise_def exposed_def Let_def)
  show ?thesis
    using usePromise_drops_superseded [of 1 2 "[Supply (Some 2)]" "Resolved (Plain (5::nat))" "[]"
            "\<lambda>f v. v" "\<lambda>p. None" 0, OF _ later] now
    by simp
qed

text \<open>
  In any world a run reaches, let the promise the hook was last given settle for the first
  time. Resolved with a value \<open>v\<close> that is no function, the returned state is \<open>v\<close>
  itself: a promise that resolves with \<open>NOT_ASKED\<close>, \<open>LOADING\<close> or a failure value shows
  as that state, which is not a ready one. Rejected with \<open>e\<close>, the state is the failure
  made of \<open>e\<close>. Resolved with a function, the state is what the function returns for
  \<open>LOADING\<close>.
\<close>

lemma usePromise_stores_value:
  fixes v x e :: "'a jsval"
  assumes "watched (promise_run es (promise_init call st)) = Some p"
      and "pw_settled (promise_run es (promise_init call st)) p = None"
  shows "(\<not> isFunction v \<longrightarrow>
            exposed (settle p (Resolved v) (promise_run es (promise_init call st))) = Some v) \<and>
         exposed (settle p (Resolved NOT_ASKED) (promise_run es (promise_init call st)))
           = Some NOT_ASKED \<and>
         exposed (settle p (Resolved LOADING) (promise_run es (promise_init call st)))
           = Some LOADING \<and>
         exposed (settle p (Resolved (Failure x)) (promise_run es (promise_init call st)))
           = Some (Failure x) \<and>
         \<not> isReady (NOT_ASKED :: 'a jsval) \<and> \<not> isReady (LOADING :: 'a jsval) \<and>
         \<not> isReady (Failure x) \<and>
         exposed (settle p (Rejected e) (promise_run es (promise_init call st)))
           = Some (failWith e) \<and>
         exposed (settle p (Resolved (Func f)) (promise_run es (promise_init call st)))
           = Some (call f LOADING)"
proof -
  have call: "pw_call (promise_run es (promise_init call st)) = call"
    by (simp add: call_run promise_init_def)
  note settled = settle_watched [OF promise_run_inv [OF promise_init_inv] assms, unfolded call]
  show ?thesis
    by (simp add: settled setState_value setState_function failWith_def isReady_def)
qed

lemma usePromise_stores_value_example:
  "exposed (settle 2 (Resolved LOADING)
      (promise_run [Supply (Some 1), Supply (Some 2)]
         (promise_init (\<lambda>f v. v) (\<lambda>p. None :: nat outcome option))))
     = Some LOADING \<and>
   exposed (settle 2 (Resolved (Plain (5::nat)))
      (promise_run [Supply (Some 1), Supply (Some 2)]
         (promise_init (\<lambda>f v. v) (\<lambda>p. None :: nat outcome option))))
     = Some (Plain (5::nat)) \<and>
   exposed (settle 2 (Rejected (Plain (5::nat)))
      (promise_run [Supply (Some 1), Supply (Some 2)]
         (promise_init (\<lambda>f v. v) (\<lambda>p. None :: nat outcome option))))
     = Some (Failure (Plain (5::nat)))"
proof -
  let ?w = "promise_run [Supply (Some 1), Supply (Some 2)]
              (promise_init (\<lambda>f v. v) (\<lambda>p. None :: nat outcome option))"
  have watching: "watched ?w = Some 2"
    by (simp add: promise_run_def watched_usePromise)
  have pending: "pw_settled ?w 2 = None"
    by (simp add: promise_run_def promise_init_def usePromise_def Let_def)
  show ?thesis
    using usePromise_stores_value [OF watching pending, of "Plain (5::nat)" LOADING "Plain (5::nat)" 0]
    by (simp add: failWith_def)
qed

text \<open>
  C10. The resolved value is not always stored as it is. Give the hook a promise, and let
  the promise resolve with a function that returns 42 when called with \<open>LOADING\<close> and 0
  otherwise: \<open>setData(result)\<close> calls the function as an updater of the state, which is
  \<open>LOADING\<close>, and the hook returns 42, not the function the promise resolved with.
\<close>

theorem usePromise_calls_function_result:
  "exposed (promise_run [Supply (Some 1), Settle 1 (Resolved (Func 0))]
      (promise_init (\<lambda>f v. case v of LOADING \<Rightarrow> Plain (42::nat) | _ \<Rightarrow> Plain 0) (\<lambda>p. None)))
     = Some (Plain 42) \<and>
   exposed (promise_run [Supply (Some 1), Settle 1 (Resolved (Func 0))]
      (promise_init (\<lambda>f v. case v of LOADING \<Rightarrow> Plain (42::nat) | _ \<Rightarrow> Plain 0) (\<lambda>p. None)))
     \<noteq> Some (Func 0)"
  by (simp add: promise_run_def promise_init_def usePromise_def settle_def deliver_def
        setState_def exposed_def Let_def)

section \<open>Properties of RemoteSuspense\<close>

text \<open>
  C8. Whatever the state and the time: for \<open>NOT_ASKED\<close> the component returns an empty
  fragment; for a failure it returns the failure fallback, called with the error when it
  is a function and as it is when it is a node (\<open>null\<close> when none is given); for a ready
  value it returns what \<open>children\<close> makes of the value.
\<close>

theorem RemoteSuspense_dispatch:
  "snd (RemoteSuspense (props\<lparr>rsData := NOT_ASKED\<rparr>) now hook) = Fragment [] \<and>
   snd (RemoteSuspense (props\<lparr>rsData := Failure e, failureFallback := Some (Function f)\<rparr>) now hook)
     = Fragment [f e] \<and>
   snd (RemoteSuspense (props\<lparr>rsData := Failure e, failureFallback := Some (Node n)\<rparr>) now hook)
     = Fragment [n] \<and>
   snd (RemoteSuspense (props\<lparr>rsData := Failure e, failureFallback := None\<rparr>) now hook)
     = Fragment [NullNode] \<and>
   snd (RemoteSuspense (props\<lparr>rsData := Plain v\<rparr>) now hook) = Fragment [children props (Plain v)] \<and>
   isReady (Plain v :: 'a jsval) \<and>
   snd (RemoteSuspense (props\<lparr>rsData := NaN\<rparr>) now hook) = Fragment [children props NaN] \<and>
   snd (RemoteSuspense (props\<lparr>rsData := Func g\<rparr>) now hook) = Fragment [children props (Func g)]"
  by (simp add: RemoteSuspense_def Let_def failure_view_def isReady_def)

lemma suspense_run_snoc: "suspense_run (es @ [e]) w = suspense_step (suspense_run es w) e"
  by (simp add: suspense_run_def)

lemma elapsed_snoc: "elapsed (es @ [e]) = elapsed es + (case e of Render p \<Rightarrow> 0 | Elapse n \<Rightarrow> n)"
  by (induction es rule: elapsed.induct) (simp_all split: timed_event.splits)

lemma render_count_snoc:
  "render_count (es @ [e]) = render_count es + (case e of Render p \<Rightarrow> 1 | Elapse n \<Rightarrow> 0)"
  by (induction es rule: render_count.induct) (simp_all split: timed_event.splits)

lemma last_render_snoc:
  "last_render (es @ [e]) = (case e of Render p \<Rightarrow> Some p | Elapse n \<Rightarrow> last_render es)"
  by (induction es rule: last_render.induct) (simp_all split: timed_event.splits option.splits)

lemma suspense_inv_render: "suspense_inv w \<Longrightarrow> suspense_inv (suspense_render props w)"
  by (auto simp: suspense_inv_def suspense_render_def RemoteSuspense_def useTimeout_def Let_def
           split: option.splits if_splits)

lemma suspense_inv_step: "suspense_inv w \<Longrightarrow> suspense_inv (suspense_step w e)"
proof (cases e)
  case (Render props)
  then show "suspense_inv w \<Longrightarrow> suspense_inv (suspense_step w e)" by (simp add: suspense_inv_render)
next
  case (Elapse n)
  assume inv: "suspense_inv w"
  show "suspense_inv (suspense_step w e)"
    using inv unfolding Elapse
    by (auto simp: suspense_inv_def due_def suspense_render_def RemoteSuspense_def useTimeout_def Let_def
           split: option.splits if_splits)
qed

lemma suspense_inv_run: "suspense_inv w \<Longrightarrow> suspense_inv (suspense_run es w)"
  unfolding suspense_run_def
  by (induction es arbitrary: w) (simp_all add: suspense_inv_step)

lemma props_step: "sw_props (suspense_step w e) = (case e of Render p \<Rightarrow> Some p | Elapse n \<Rightarrow> sw_props w)"
  by (cases e)
     (auto simp: suspense_render_def split_beta Let_def split: option.splits)

lemma props_run: "sw_props (suspense_run es suspense_init) = last_render es"
proof (induction es rule: rev_induct)
  case Nil
  then show ?case by (simp add: suspense_run_def suspense_init_def)
next
  case (snoc e es)
  then show ?case
    by (simp add: suspense_run_snoc props_step last_render_snoc split: timed_event.splits)
qed

lemma quiet_after:
  "not_loading_after pre \<Longrightarrow> quiet (suspense_run pre suspense_init)"
  using suspense_inv_run [of suspense_init pre] props_run [of pre]
  by (auto simp: suspense_inv_def quiet_def not_loading_after_def suspense_init_def split: option.splits)

lemma enter_loading:
  "quiet w \<Longrightarrow> rsData p = LOADING \<Longrightarrow>
     suspense_render p w =
       w\<lparr>sw_props := Some p,
         sw_hook := Some \<lparr>showLoading = False,
                          loadingTimer = \<lparr>currentCallback = (), callbackDeps = (),
                                          delayDeps = Number (timeout_of p),
                                          timer = Some (sw_now w + timeout_of p)\<rparr>\<rparr>,
         sw_rendered := sw_rendered w @ [Fragment [Bool False]]\<rparr>"
  by (auto simp: quiet_def suspense_render_def RemoteSuspense_def useTimeout_def Let_def
           split: option.splits)

lemma loading_window:
  assumes "quiet w0" and "rsData p = LOADING" and "timeout_of p = D"
  shows "(\<forall>e\<in>set es. stays_loading D e) \<Longrightarrow> elapsed es < D \<Longrightarrow>
     (\<exists>p'. rsData p' = LOADING \<and> timeout_of p' = D \<and>
       suspense_run (Render p # es) w0 =
         \<lparr>sw_now = sw_now w0 + elapsed es,
          sw_props = Some p',
          sw_hook = Some \<lparr>showLoading = False,
                          loadingTimer = \<lparr>currentCallback = (), callbackDeps = (),
                                          delayDeps = Number D,
                                          timer = Some (sw_now w0 + D)\<rparr>\<rparr>,
          sw_rendered = sw_rendered w0 @ replicate (Suc (render_count es)) (Fragment [Bool False])\<rparr>)"
proof (induction es rule: rev_induct)
  case Nil
  show ?case
    using assms by (cases w0) (auto simp: suspense_run_def enter_loading intro!: exI [of _ p])
next
  case (snoc e es)
  from snoc.prems have all: "\<forall>e\<in>set es. stays_loading D e" and here: "stays_loading D e"
    and el: "elapsed es < D" and el': "elapsed (es @ [e]) < D"
    by (simp_all add: elapsed_snoc)
  from snoc.IH [OF all el] obtain p' where p': "rsData p' = LOADING" "timeout_of p' = D"
    and w: "suspense_run (Render p # es) w0 =
         \<lparr>sw_now = sw_now w0 + elapsed es,
          sw_props = Some p',
          sw_hook = Some \<lparr>showLoading = False,
                          loadingTimer = \<lparr>currentCallback = (), callbackDeps = (),
                                          delayDeps = Number D,
                                          timer = Some (sw_now w0 + D)\<rparr>\<rparr>,
          sw_rendered = sw_rendered w0 @ replicate (Suc (render_count es)) (Fragment [Bool False])\<rparr>"
    by blast
  have run: "suspense_run (Render p # es @ [e]) w0 = suspense_step (suspense_run (Render p # es) w0) e"
    using suspense_run_snoc [of "Render p # es" e w0] by simp
  show ?case
  proof (cases e)
    case (Render q)
    with here have q: "rsData q = LOADING" "timeout_of q = D" by (simp_all add: stays_loading_def)
    show ?thesis
      unfolding Render run [unfolded Render] w
      by (rule exI [of _ q])
         (simp add: q suspense_render_def RemoteSuspense_def useTimeout_def Let_def
            elapsed_snoc render_count_snoc replicate_append_same)
  next
    case (Elapse n)
    with el' have "elapsed es + n < D" by (simp add: elapsed_snoc)
    then show ?thesis
      unfolding Elapse run [unfolded Elapse] w
      by (intro exI [of _ p'])
         (simp add: p' due_def elapsed_snoc render_count_snoc)
  qed
qed

lemma leave_loading:
  "rsData q \<noteq> LOADING \<Longrightarrow>
   sw_hook w = Some \<lparr>showLoading = b,
                     loadingTimer = \<lparr>currentCallback = (), callbackDeps = (),
                                     delayDeps = Number D, timer = t\<rparr>\<rparr> \<Longrightarrow>
   suspense_render q w =
     w\<lparr>sw_props := Some q,
       sw_hook := Some \<lparr>showLoading = False,
                        loadingTimer = \<lparr>currentCallback = (), callbackDeps = (),
                                        delayDeps = JFalse, timer = None\<rparr>\<rparr>,
       sw_rendered := sw_rendered w @ [snd (RemoteSuspense q 0 None)]\<rparr>"
  by (cases "rsData q")
     (simp_all add: suspense_render_def RemoteSuspense_def useTimeout_def Let_def)

lemma render_clears_flag:
  "rsData q \<noteq> LOADING \<Longrightarrow>
     map_option showLoading (sw_hook (suspense_step w (Render q))) = Some False"
  by (simp add: suspense_render_def RemoteSuspense_def Let_def split: option.splits)

lemma fires_after_timeout:
  assumes "quiet w0" and "rsData p = LOADING" and "timeout_of p \<le> n"
  shows "sw_rendered (suspense_run [Render p, Elapse n] w0)
           = sw_rendered w0 @ [Fragment [Bool False], Fragment [loading_view p]]"
proof -
  have "suspense_run [Render p, Elapse n] w0 = suspense_step (suspense_render p w0) (Elapse n)"
    by (simp add: suspense_run_def)
  also have "sw_rendered \<dots> = sw_rendered w0 @ [Fragment [Bool False], Fragment [loading_view p]]"
    unfolding enter_loading [OF assms(1,2)] using assms(2,3)
    by (simp add: due_def suspense_render_def RemoteSuspense_def useTimeout_def Let_def)
  finally show ?thesis .
qed

text \<open>
  C7. Take any history after which the data is not \<open>LOADING\<close>. Render with \<open>LOADING\<close>
  under timeout \<open>D\<close>, then let renders with \<open>LOADING\<close> (same timeout) and waits follow
  whose time adds up to less than \<open>D\<close>: every element rendered since is the fragment of
  \<open>false\<close>, which shows nothing. When a render with other data follows, the only new
  element is the one for that data, the same a fresh instance returns, and waiting
  longer renders nothing more. A render with data other than \<open>LOADING\<close> clears
  \<open>showLoading\<close> in that very step, in any world. Had the data stayed \<open>LOADING\<close> for
  \<open>D\<close> or longer, the loading fallback would have been rendered.
\<close>

theorem RemoteSuspense_short_loading_shows_nothing:
  assumes "not_loading_after pre"
      and "rsData p = LOADING" and "timeout_of p = D"
      and "\<forall>e\<in>set es. stays_loading D e" and "elapsed es < D"
      and "rsData q \<noteq> LOADING"
  shows "sw_rendered (suspense_run (pre @ Render p # es) suspense_init)
           = sw_rendered (suspense_run pre suspense_init)
               @ replicate (Suc (render_count es)) (Fragment [Bool False]) \<and>
         sw_rendered (suspense_run (pre @ Render p # es @ [Render q]) suspense_init)
           = sw_rendered (suspense_run (pre @ Render p # es) suspense_init)
               @ [snd (RemoteSuspense q 0 None)] \<and>
         sw_rendered (suspense_run (pre @ Render p # es @ [Render q, Elapse n]) suspense_init)
           = sw_rendered (suspense_run (pre @ Render p # es @ [Render q]) suspense_init) \<and>
         map_option showLoading (sw_hook (suspense_step w (Render q))) = Some False \<and>
         sw_rendered (suspense_run (pre @ [Render p, Elapse (D + m)]) suspense_init)
           = sw_rendered (suspense_run pre suspense_init)
               @ [Fragment [Bool False], Fragment [loading_view p]]"
proof -
  let ?w0 = "suspense_run pre suspense_init"
  have quiet: "quiet ?w0" using assms(1) by (rule quiet_after)
  from loading_window [OF quiet assms(2,3,4,5)]
  obtain p' where w: "suspense_run (Render p # es) ?w0 =
         \<lparr>sw_now = sw_now ?w0 + elapsed es,
          sw_props = Some p',
          sw_hook = Some \<lparr>showLoading = False,
                          loadingTimer = \<lparr>currentCallback = (), callbackDeps = (),
                                          delayDeps = Number D,
                                          timer = Some (sw_now ?w0 + D)\<rparr>\<rparr>,
          sw_rendered = sw_rendered ?w0 @ replicate (Suc (render_count es)) (Fragment [Bool False])\<rparr>"
    by blast
  have split1: "suspense_run (pre @ Render p # es) suspense_init = suspense_run (Render p # es) ?w0"
    by (simp add: suspense_run_def)
  have a: "sw_rendered (suspense_run (pre @ Render p # es) suspense_init)
           = sw_rendered ?w0 @ replicate (Suc (render_count es)) (Fragment [Bool False])"
    unfolding split1 w by simp
  have split2: "suspense_run (pre @ Render p # es @ [Render q]) suspense_init
      = suspense_render q (suspense_run (Render p # es) ?w0)"
    by (simp add: suspense_run_def)
  have left: "suspense_render q (suspense_run (Render p # es) ?w0) =
     (suspense_run (Render p # es) ?w0)
       \<lparr>sw_props := Some q,
        sw_hook := Some \<lparr>showLoading = False,
                        loadingTimer = \<lparr>currentCallback = (), callbackDeps = (),
                                        delayDeps = JFalse, timer = None\<rparr>\<rparr>,
        sw_rendered := sw_rendered (suspense_run (Render p # es) ?w0) @ [snd (RemoteSuspense q 0 None)]\<rparr>"
    by (rule leave_loading [OF assms(6), of _ False D "Some (sw_now ?w0 + D)"]) (simp add: w)
  have b: "sw_rendered (suspense_run (pre @ Render p # es @ [Render q]) suspense_init)
           = sw_rendered (suspense_run (pre @ Render p # es) suspense_init)
               @ [snd (RemoteSuspense q 0 None)]"
    unfolding split2 split1 left by simp
  have split3: "suspense_run (pre @ Render p # es @ [Render q, Elapse n]) suspense_init
      = suspense_step (suspense_render q (suspense_run (Render p # es) ?w0)) (Elapse n)"
    by (simp add: suspense_run_def)
  have c: "sw_rendered (suspense_run (pre @ Render p # es @ [Render q, Elapse n]) suspense_init)
           = sw_rendered (suspense_run (pre @ Render p # es @ [Render q]) suspense_init)"
    unfolding split3 split2 left by (simp add: due_def)
  have d: "map_option showLoading (sw_hook (suspense_step w (Render q))) = Some False"
    using assms(6) by (rule render_clears_flag)
  have split4: "suspense_run (pre @ [Render p, Elapse (D + m)]) suspense_init
      = suspense_run [Render p, Elapse (D + m)] ?w0"
    by (simp add: suspense_run_def)
  have e: "sw_rendered (suspense_run (pre @ [Render p, Elapse (D + m)]) suspense_init)
           = sw_rendered ?w0 @ [Fragment [Bool False], Fragment [loading_view p]]"
    unfolding split4 by (rule fires_after_timeout [OF quiet assms(2)]) (simp add: assms(3))
  from a b c d e show ?thesis by simp
qed

theorem RemoteSuspense_short_loading_shows_nothing_witness:
  "sw_rendered (suspense_run [Render (example_props NOT_ASKED), Render (example_props LOADING),
                              Elapse 50, Render (example_props (Plain 2))] suspense_init)
     = [Fragment [], Fragment [Bool False], Fragment [Element ''AA'']] \<and>
   sw_rendered (suspense_run [Render (example_props NOT_ASKED), Render (example_props LOADING),
                              Elapse 150] suspense_init)
     = [Fragment [], Fragment [Bool False], Fragment [Element ''spinner'']]"
proof -
  have before: "not_loading_after [Render (example_props NOT_ASKED)]"
    by (simp add: not_loading_after_def example_props_def)
  have loading: "rsData (example_props LOADING) = LOADING"
    and timeout: "timeout_of (example_props LOADING) = 150"
    by (simp_all add: example_props_def timeout_of_def)
  have stays: "\<forall>e\<in>set [Elapse 50]. stays_loading 150 e"
    by (simp add: stays_loading_def)
  have short: "elapsed [Elapse 50 :: (nat, string) RemoteSuspenseProps timed_event] < 150"
    by simp
  have ready: "rsData (example_props (Plain 2)) \<noteq> LOADING"
    by (simp add: example_props_def)
  have first: "sw_rendered (suspense_run [Render (example_props NOT_ASKED)] suspense_init) = [Fragment []]"
    by (simp add: suspense_run_def suspense_init_def suspense_render_def RemoteSuspense_def
          Let_def example_props_def)
  have content: "snd (RemoteSuspense (example_props (Plain 2)) 0 None) = Fragment [Element ''AA'']"
    by (simp add: RemoteSuspense_def Let_def example_props_def numeral_2_eq_2)
  have spinner: "loading_view (example_props LOADING) = Element ''spinner''"
    by (simp add: loading_view_def example_props_def)
  show ?thesis
    using RemoteSuspense_short_loading_shows_nothing
            [OF before loading timeout stays short ready, where n = 0 and m = 0 and w = suspense_init]
    by (simp add: first content spinner)
qed

section \<open>Properties of useRemoteLatest with the activity indicator\<close>

lemma latest_run_snoc: "latest_run (es @ [e]) w = latest_step (latest_run es w) e"
  by (simp add: latest_run_def)

lemma latest_run_append: "latest_run (es @ fs) w = latest_run fs (latest_run es w)"
  by (simp add: latest_run_def)

lemma useRemoteLatest_cases:
  "useRemoteLatest ref d = d \<or>
   (\<exists>s. ref = Some s \<and> useRemoteLatest ref d = s \<and> isReady s \<and> (d = NOT_ASKED \<or> d = LOADING))"
  by (cases d; cases ref) (auto simp: useRemoteLatest_def isReady_def Let_def)

lemma useRemoteLatest_again:
  "s = d \<or> isReady s \<and> (d = NOT_ASKED \<or> d = LOADING) \<Longrightarrow> useRemoteLatest (Some s) d = s"
  by (auto simp: useRemoteLatest_def isReady_def)

lemma useActivityIndicator_idle:
  "useActivityIndicator False t now None c = (at_rest, c)"
  "useActivityIndicator False t now (Some at_rest) c = (at_rest, c)"
  by (simp_all add: useActivityIndicator_def useTimeout_def at_rest_def Let_def)

lemma coherent_at_rest: "coherent at_rest"
  by (simp add: coherent_def at_rest_def)

lemma activity_off:
  "coherent a \<Longrightarrow> fst (useActivityIndicator False t now (Some a) c) = at_rest"
  by (cases a; cases "showTimer a")
     (auto simp: coherent_def useActivityIndicator_def useTimeout_def at_rest_def Let_def)

lemma activity_off_fresh:
  "fst (useActivityIndicator False t now None c) = at_rest"
  by (simp add: useActivityIndicator_def useTimeout_def at_rest_def Let_def)

lemma activity_on:
  "coherent a \<Longrightarrow>
     delayDeps (showTimer (fst (useActivityIndicator True t now (Some a) c)))
       = Number (case t of None \<Rightarrow> 250 | Some n \<Rightarrow> n) \<and>
     showDeps (fst (useActivityIndicator True t now (Some a) c))
       = showState (fst (useActivityIndicator True t now (Some a) c)) \<and>
     (registration (fst (useActivityIndicator True t now (Some a) c)) = None)
       = (\<not> showState (fst (useActivityIndicator True t now (Some a) c)))"
  by (auto simp: coherent_def useActivityIndicator_def useTimeout_def Let_def)

lemma activity_on_fresh:
  "delayDeps (showTimer (fst (useActivityIndicator True t now None c)))
       = Number (case t of None \<Rightarrow> 250 | Some n \<Rightarrow> n) \<and>
     showDeps (fst (useActivityIndicator True t now None c))
       = showState (fst (useActivityIndicator True t now None c)) \<and>
     (registration (fst (useActivityIndicator True t now None c)) = None)
       = (\<not> showState (fst (useActivityIndicator True t now None c)))"
  by (auto simp: useActivityIndicator_def useTimeout_def Let_def)

lemma activity_delay:
  "delayDeps (showTimer (fst (useActivityIndicator b t now hook c)))
     = (if b then Number (case t of None \<Rightarrow> 250 | Some n \<Rightarrow> n) else JFalse)"
  by (cases hook) (simp_all add: useActivityIndicator_def useTimeout_def Let_def)

lemma activity_coherent:
  "(case hook of None \<Rightarrow> True | Some a \<Rightarrow> coherent a) \<Longrightarrow>
     coherent (fst (useActivityIndicator b t now hook c))"
proof (cases hook)
  case None
  show ?thesis
  proof (cases b)
    case True
    then show ?thesis
      unfolding None using activity_on_fresh [of t now c] by (simp add: coherent_def)
  next
    case False
    then show ?thesis
      unfolding None by (simp add: activity_off_fresh coherent_at_rest)
  qed
next
  case (Some a)
  assume "case hook of None \<Rightarrow> True | Some a \<Rightarrow> coherent a"
  with Some have a: "coherent a" by simp
  show ?thesis
  proof (cases b)
    case True
    then show ?thesis
      unfolding Some using activity_on [OF a, of t now c] by (simp add: coherent_def)
  next
    case False
    then show ?thesis
      unfolding Some by (simp add: activity_off [OF a] coherent_at_rest)
  qed
qed

lemma latest_inv_render:
  assumes "latest_inv w"
  shows "latest_inv (latest_render args w)"
proof -
  obtain d opts where args: "args = (d, opts)" by (cases args)
  define s1 where "s1 = useRemoteLatest (map_option shown (lw_hook w)) d"
  define b where "b = (strict_neq s1 d \<and> \<not> hidden opts)"
  define r where "r = useActivityIndicator b (indicatorTimeout opts) (lw_now w)
                        (map_option activity (lw_hook w)) (lw_context w)"
  have coh0: "case map_option activity (lw_hook w) of None \<Rightarrow> True | Some a \<Rightarrow> coherent a"
    using assms by (auto simp: latest_inv_def split: option.splits)
  have render: "latest_render args w =
      w\<lparr>lw_args := Some (d, opts), lw_hook := Some \<lparr>shown = s1, activity = fst r\<rparr>,
        lw_context := snd r, lw_returned := lw_returned w @ [s1]\<rparr>"
    by (simp add: latest_render_def useRemoteLatest_reporting_def args s1_def b_def r_def
          Let_def split_beta)
  have shape: "s1 = d \<or> isReady s1 \<and> (d = NOT_ASKED \<or> d = LOADING)"
    using useRemoteLatest_cases [of "map_option shown (lw_hook w)" d] by (auto simp: s1_def)
  have coh: "coherent (fst r)"
    unfolding r_def by (rule activity_coherent [OF coh0])
  have delay: "delayDeps (showTimer (fst r)) = (if b then Number (threshold opts) else JFalse)"
    unfolding r_def by (simp add: activity_delay threshold_def)
  show ?thesis
    unfolding render latest_inv_def using shape coh delay by (simp add: b_def)
qed

lemma latest_inv_elapse:
  assumes "latest_inv w"
  shows "latest_inv (latest_step w (Elapse n))"
proof (cases "due (lw_now w + n) (map_option (showTimer \<circ> activity) (lw_hook w))")
  case None
  then show ?thesis using assms by (auto simp: latest_inv_def split: option.splits)
next
  case (Some t)
  then obtain h where h: "lw_hook w = Some h" and tm: "timer (showTimer (activity h)) = Some t"
    by (auto simp: due_def split: option.splits if_splits)
  with assms obtain d opts where a: "lw_args w = Some (d, opts)"
    by (cases "lw_args w") (auto simp: latest_inv_def)
  from assms h a have shape: "shown h = d \<or> isReady (shown h) \<and> (d = NOT_ASKED \<or> d = LOADING)"
    and coh: "coherent (activity h)"
    and delay: "delayDeps (showTimer (activity h))
                 = (if strict_neq (shown h) d \<and> \<not> hidden opts
                    then Number (threshold opts) else JFalse)"
    by (simp_all add: latest_inv_def)
  from coh tm have nz: "delayDeps (showTimer (activity h)) \<noteq> JFalse"
    by (auto simp: coherent_def at_rest_def)
  with delay have stale: "strict_neq (shown h) d" and vis: "\<not> hidden opts"
    and delay': "delayDeps (showTimer (activity h)) = Number (threshold opts)"
    by (auto split: if_splits)
  have keep: "useRemoteLatest (Some (shown h)) d = shown h"
    using shape by (rule useRemoteLatest_again)
  show ?thesis
  proof (cases "showState (activity h)")
    case True
    then show ?thesis
      using Some h a stale vis delay' coh shape
      by (simp add: latest_inv_def coherent_def at_rest_def Let_def)
  next
    case False
    with coh have noreg: "registration (activity h) = None" and sd: "\<not> showDeps (activity h)"
      by (simp_all add: coherent_def)
    show ?thesis
      using Some h a False stale vis delay' noreg sd shape keep
      by (simp add: latest_inv_def coherent_def at_rest_def latest_render_def
            useRemoteLatest_reporting_def useActivityIndicator_def useTimeout_def Let_def
            threshold_def)
  qed
qed

lemma latest_init_inv: "latest_inv (latest_init c)"
  by (simp add: latest_inv_def latest_init_def)

lemma latest_inv_step: "latest_inv w \<Longrightarrow> latest_inv (latest_step w e)"
  by (cases e) (simp_all add: latest_inv_render latest_inv_elapse del: latest_step.simps(2))

lemma latest_inv_run: "latest_inv w \<Longrightarrow> latest_inv (latest_run es w)"
  unfolding latest_run_def
  by (induction es arbitrary: w) (simp_all add: latest_inv_step del: latest_step.simps)

lemma args_step:
  "lw_args (latest_step w e) = (case e of Render a \<Rightarrow> Some a | Elapse n \<Rightarrow> lw_args w)"
  by (cases e)
     (auto simp: latest_render_def split_beta Let_def split: option.splits)

lemma args_run: "lw_args (latest_run es (latest_init c)) = last_render es"
proof (induction es rule: rev_induct)
  case Nil
  then show ?case by (simp add: latest_run_def latest_init_def)
next
  case (snoc e es)
  then show ?case
    by (simp add: latest_run_snoc args_step last_render_snoc del: latest_step.simps
          split: timed_event.splits)
qed

lemma rest_after:
  assumes "last_render pre = Some (r, options)" and "isReady r" and "r \<noteq> NaN"
  shows "lw_hook (latest_run pre (latest_init c)) = Some \<lparr>shown = r, activity = at_rest\<rparr>"
proof -
  let ?w = "latest_run pre (latest_init c)"
  have inv: "latest_inv ?w" by (rule latest_inv_run [OF latest_init_inv])
  have args: "lw_args ?w = Some (r, options)" using assms(1) by (simp add: args_run)
  from inv args obtain h where h: "lw_hook ?w = Some h"
    by (cases "lw_hook ?w") (auto simp: latest_inv_def)
  from inv args h assms(2) have s: "shown h = r"
    by (auto simp: latest_inv_def isReady_def)
  with inv args h assms(3)
  have "delayDeps (showTimer (activity h)) = JFalse" and "coherent (activity h)"
    by (simp_all add: latest_inv_def strict_neq_def)
  then have "activity h = at_rest" by (simp add: coherent_def)
  with s h show ?thesis by (cases h) simp
qed

lemma stale_facts:
  "isReady r \<Longrightarrow> x = NOT_ASKED \<or> x = LOADING \<Longrightarrow>
     useRemoteLatest (Some r) x = r \<and> strict_neq r x"
  by (auto simp: useRemoteLatest_def isReady_def strict_neq_def)

lemma enter_stale:
  assumes "lw_hook w = Some \<lparr>shown = r, activity = at_rest\<rparr>"
      and "isReady r" and "x = NOT_ASKED \<or> x = LOADING" and "\<not> hidden options"
  shows "latest_render (x, options) w =
           stale_world r options (lw_context w) (lw_now w) (lw_now w) x (lw_returned w @ [r]) False"
  using assms(1,4) stale_facts [OF assms(2,3)]
  by (cases w)
     (simp add: stale_world_def latest_render_def useRemoteLatest_reporting_def
        useActivityIndicator_def useTimeout_def at_rest_def threshold_def Let_def)

lemma stale_render:
  assumes "isReady r" and "y = NOT_ASKED \<or> y = LOADING" and "\<not> hidden options"
  shows "latest_render (y, options) (stale_world r options c0 t0 now x rs fired) =
           stale_world r options c0 t0 now y (rs @ [r]) fired"
  using assms(3) stale_facts [OF assms(1,2)]
  by (simp add: stale_world_def latest_render_def useRemoteLatest_reporting_def
        useActivityIndicator_def useTimeout_def threshold_def Let_def)

lemma stale_elapse:
  assumes "isReady r" and "x = NOT_ASKED \<or> x = LOADING" and "\<not> hidden options"
  shows "latest_step (stale_world r options c0 t0 now x rs fired) (Elapse n) =
           (if \<not> fired \<and> t0 + threshold options \<le> now + n
            then stale_world r options c0 t0 (now + n) x (rs @ [r]) True
            else stale_world r options c0 t0 (now + n) x rs fired)"
  using assms(3) stale_facts [OF assms(1,2)]
  by (simp add: stale_world_def due_def latest_render_def useRemoteLatest_reporting_def
        useActivityIndicator_def useTimeout_def threshold_def Let_def)

lemma leave_stale:
  assumes "isReady d \<or> isFailure d" and "d \<noteq> NaN"
  shows "latest_render (d, options') (stale_world r options c0 t0 now x rs fired) =
           \<lparr>lw_now = now, lw_args = Some (d, options'),
            lw_hook = Some \<lparr>shown = d, activity = at_rest\<rparr>,
            lw_context = (if fired then deregister (fst (register c0)) (snd (register c0)) else c0),
            lw_returned = rs @ [d]\<rparr>"
  using useRemoteLatest_settled [OF assms(1), of "Some r"] assms(2)
  by (simp add: stale_world_def latest_render_def useRemoteLatest_reporting_def strict_neq_def
        useActivityIndicator_def useTimeout_def at_rest_def Let_def)

lemma time_passed_snoc:
  "time_passed (es @ [e]) = (time_passed es \<or> (case e of Render p \<Rightarrow> False | Elapse n \<Rightarrow> True))"
  by (induction es rule: time_passed.induct) (simp_all split: timed_event.splits)

lemma stale_window:
  assumes "lw_hook w0 = Some \<lparr>shown = r, activity = at_rest\<rparr>"
      and "isReady r" and "x = NOT_ASKED \<or> x = LOADING" and "\<not> hidden options"
  shows "(\<forall>e\<in>set es. stays_stale options e) \<Longrightarrow>
     (\<exists>y. (y = NOT_ASKED \<or> y = LOADING) \<and>
        latest_run (Render (x, options) # es) w0 =
          stale_world r options (lw_context w0) (lw_now w0) (lw_now w0 + elapsed es) y
            (lw_returned w0 @ replicate (Suc (render_count es)
                + (if reported options es then 1 else 0)) r)
            (reported options es))"
proof (induction es rule: rev_induct)
  case Nil
  show ?case
    using assms(3) enter_stale [OF assms]
    by (intro exI [of _ x]) (simp add: latest_run_def stale_world_def reported_def)
next
  case (snoc e es)
  from snoc.prems have all: "\<forall>e\<in>set es. stays_stale options e" and here: "stays_stale options e"
    by simp_all
  from snoc.IH [OF all] obtain y where y: "y = NOT_ASKED \<or> y = LOADING"
    and w: "latest_run (Render (x, options) # es) w0 =
          stale_world r options (lw_context w0) (lw_now w0) (lw_now w0 + elapsed es) y
            (lw_returned w0 @ replicate (Suc (render_count es)
                + (if reported options es then 1 else 0)) r)
            (reported options es)"
    by blast
  have run: "latest_run (Render (x, options) # es @ [e]) w0
               = latest_step (latest_run (Render (x, options) # es) w0) e"
    using latest_run_snoc [of "Render (x, options) # es" e w0] by simp
  let ?k = "Suc (render_count es) + (if reported options es then 1 else 0)"
  show ?case
  proof (cases e)
    case (Render args)
    with here obtain z where e: "e = Render (z, options)" and z: "z = NOT_ASKED \<or> z = LOADING"
      by (cases args) (auto simp: stays_stale_def)
    have same: "reported options (es @ [e]) = reported options es"
      by (simp add: e reported_def elapsed_snoc time_passed_snoc)
    have "latest_run (Render (x, options) # es @ [e]) w0
        = latest_render (z, options)
            (stale_world r options (lw_context w0) (lw_now w0) (lw_now w0 + elapsed es) y
               (lw_returned w0 @ replicate ?k r) (reported options es))"
      using run w e by simp
    also have "\<dots> = stale_world r options (lw_context w0) (lw_now w0) (lw_now w0 + elapsed es) z
               ((lw_returned w0 @ replicate ?k r) @ [r]) (reported options es)"
      by (rule stale_render [OF assms(2) z assms(4)])
    also have "(lw_returned w0 @ replicate ?k r) @ [r]
        = lw_returned w0 @ replicate (Suc (render_count (es @ [e]))
                + (if reported options (es @ [e]) then 1 else 0)) r"
      unfolding same by (simp add: e render_count_snoc replicate_append_same)
    finally have "latest_run (Render (x, options) # es @ [e]) w0
        = stale_world r options (lw_context w0) (lw_now w0) (lw_now w0 + elapsed (es @ [e])) z
            (lw_returned w0 @ replicate (Suc (render_count (es @ [e]))
                + (if reported options (es @ [e]) then 1 else 0)) r)
            (reported options (es @ [e]))"
      unfolding same by (simp add: e elapsed_snoc)
    with z show ?thesis
      by (intro exI [of _ z]) simp
  next
    case (Elapse n)
    have el: "elapsed (es @ [e]) = elapsed es + n" and rc: "render_count (es @ [e]) = render_count es"
      by (simp_all add: Elapse elapsed_snoc render_count_snoc)
    have rep: "reported options (es @ [e]) = (threshold options \<le> elapsed es + n)"
      by (simp add: Elapse reported_def elapsed_snoc time_passed_snoc)
    have "latest_run (Render (x, options) # es @ [e]) w0
        = latest_step
            (stale_world r options (lw_context w0) (lw_now w0) (lw_now w0 + elapsed es) y
               (lw_returned w0 @ replicate ?k r) (reported options es)) (Elapse n)"
      using run w Elapse by simp
    also have "\<dots> =
        (if \<not> reported options es \<and> lw_now w0 + threshold options \<le> lw_now w0 + elapsed es + n
         then stale_world r options (lw_context w0) (lw_now w0) (lw_now w0 + elapsed es + n) y
                ((lw_returned w0 @ replicate ?k r) @ [r]) True
         else stale_world r options (lw_context w0) (lw_now w0) (lw_now w0 + elapsed es + n) y
                (lw_returned w0 @ replicate ?k r) (reported options es))"
      by (rule stale_elapse [OF assms(2) y assms(4)])
    also have "\<dots> = stale_world r options (lw_context w0) (lw_now w0) (lw_now w0 + elapsed (es @ [e])) y
            (lw_returned w0 @ replicate (Suc (render_count (es @ [e]))
                + (if reported options (es @ [e]) then 1 else 0)) r)
            (reported options (es @ [e]))"
      unfolding rep el rc
      by (auto simp: reported_def replicate_append_same add.assoc)
    finally show ?thesis
      using y by (intro exI [of _ y]) simp
  qed
qed

lemma hidden_run:
  "(\<forall>e\<in>set es. hides e) \<Longrightarrow>
     lw_context (latest_run es (latest_init c)) = c \<and>
     (case lw_hook (latest_run es (latest_init c)) of
        None \<Rightarrow> True
      | Some h \<Rightarrow> activity h = at_rest)"
proof (induction es rule: rev_induct)
  case Nil
  then show ?case by (simp add: latest_run_def latest_init_def)
next
  case (snoc e es)
  then have ih: "lw_context (latest_run es (latest_init c)) = c"
      "case lw_hook (latest_run es (latest_init c)) of None \<Rightarrow> True | Some h \<Rightarrow> activity h = at_rest"
    and here: "hides e"
    by simp_all
  show ?case
  proof (cases e)
    case (Render args)
    with here have hid: "hidden (snd args)" by (simp add: hides_def)
    show ?thesis
      unfolding latest_run_snoc Render using ih hid
      by (cases "lw_hook (latest_run es (latest_init c))")
         (simp_all add: latest_render_def useRemoteLatest_reporting_def useActivityIndicator_idle
            Let_def)
  next
    case (Elapse n)
    show ?thesis
      unfolding latest_run_snoc Elapse using ih
      by (cases "lw_hook (latest_run es (latest_init c))")
         (simp_all add: due_def at_rest_def)
  qed
qed

text \<open>
  Take any history whose last render gave a ready value \<open>r\<close> other than \<open>NaN\<close>, under
  options that do not hide the indicator. Render with \<open>NOT_ASKED\<close> or \<open>LOADING\<close>, and let renders with
  such data (same options) and waits follow. The hook returns \<open>r\<close> all along. The
  registry is the one the stretch began with until the threshold has passed, and from
  then on that registry after one registration. When a failed value or a ready value
  other than \<open>NaN\<close> is rendered next, the hook is at rest after that render, at the same time: the timer is gone, the
  token is deregistered if one was taken, and waiting longer changes nothing. Under
  renders that all hide the indicator the registry never changes. The threshold of a
  caller that gives no options is 250.
\<close>

lemma reports_after_threshold:
  fixes r :: "'a RemoteData"
    and hs :: "('a RemoteData \<times> RemoteLatestOptions) timed_event list"
  assumes "last_render pre = Some (r, options)" and "isReady r" and "\<not> hidden options"
      and "x = NOT_ASKED \<or> x = LOADING" and "\<forall>e\<in>set es. stays_stale options e"
      and "isReady d \<or> isFailure d"
      and "r \<noteq> NaN" and "d \<noteq> NaN"
  shows "(let before = latest_run pre (latest_init c);
              c0 = lw_context before;
              w = latest_run (pre @ Render (x, options) # es) (latest_init c);
              w' = latest_step w (Render (d, options'))
          in lw_context w = (if reported options es then snd (register c0) else c0) \<and>
             lw_returned w = lw_returned before
               @ replicate (Suc (render_count es) + (if reported options es then 1 else 0)) r \<and>
             (elapsed es < threshold options \<longrightarrow> lw_context w = c0) \<and>
             lw_context w' = (if reported options es
                              then deregister (fst (register c0)) (snd (register c0)) else c0) \<and>
             lw_hook w' = Some \<lparr>shown = d, activity = at_rest\<rparr> \<and>
             lw_now w' = lw_now w \<and>
             lw_context (latest_step w' (Elapse n)) = lw_context w') \<and>
         ((\<forall>e\<in>set hs. hides e) \<longrightarrow> lw_context (latest_run hs (latest_init c)) = c) \<and>
         threshold default_options = 250"
proof -
  let ?before = "latest_run pre (latest_init c)"
  let ?c0 = "lw_context ?before"
  let ?w = "latest_run (pre @ Render (x, options) # es) (latest_init c)"
  let ?w' = "latest_step ?w (Render (d, options'))"
  let ?k = "Suc (render_count es) + (if reported options es then 1 else 0)"
  have rest: "lw_hook ?before = Some \<lparr>shown = r, activity = at_rest\<rparr>"
    using assms(1,2,7) by (rule rest_after)
  have split: "?w = latest_run (Render (x, options) # es) ?before"
    by (simp add: latest_run_append)
  from stale_window [OF rest assms(2,4,3,5)] obtain y where
    w: "?w = stale_world r options ?c0 (lw_now ?before) (lw_now ?before + elapsed es) y
              (lw_returned ?before @ replicate ?k r) (reported options es)"
    unfolding split by blast
  have a: "lw_context ?w = (if reported options es then snd (register ?c0) else ?c0)"
    unfolding w by (simp add: stale_world_def)
  have b: "lw_returned ?w = lw_returned ?before @ replicate ?k r"
    unfolding w by (simp add: stale_world_def)
  have c: "elapsed es < threshold options \<longrightarrow> lw_context ?w = ?c0"
    unfolding a by (simp add: reported_def)
  have w': "?w' = \<lparr>lw_now = lw_now ?before + elapsed es, lw_args = Some (d, options'),
            lw_hook = Some \<lparr>shown = d, activity = at_rest\<rparr>,
            lw_context = (if reported options es
                          then deregister (fst (register ?c0)) (snd (register ?c0)) else ?c0),
            lw_returned = (lw_returned ?before @ replicate ?k r) @ [d]\<rparr>"
    unfolding w latest_step.simps by (rule leave_stale [OF assms(6,8)])
  have d: "lw_context ?w' = (if reported options es
                              then deregister (fst (register ?c0)) (snd (register ?c0)) else ?c0)"
    and e: "lw_hook ?w' = Some \<lparr>shown = d, activity = at_rest\<rparr>"
    unfolding w' by simp_all
  have f: "lw_now ?w' = lw_now ?w"
    unfolding w' unfolding w by (simp add: stale_world_def)
  have g: "lw_context (latest_step ?w' (Elapse n)) = lw_context ?w'"
    unfolding w' by (simp add: due_def at_rest_def)
  have h: "(\<forall>e\<in>set hs. hides e) \<longrightarrow> lw_context (latest_run hs (latest_init c)) = c"
    using hidden_run [of hs c] by blast
  have i: "threshold default_options = 250"
    by (simp add: threshold_def default_options_def)
  from a b c d e f g h i show ?thesis
    unfolding Let_def by blast
qed

lemma reports_after_threshold_example:
  "lw_context (latest_run [Render (Plain (3::nat), default_options), Render (LOADING, default_options),
                           Elapse 400] (latest_init (mounted 0)))
     = \<lparr>uniqueId = 1, registered = {0}, isIndicating = True\<rparr> \<and>
   lw_returned (latest_run [Render (Plain (3::nat), default_options), Render (LOADING, default_options),
                           Elapse 400] (latest_init (mounted 0)))
     = [Plain 3, Plain 3, Plain 3] \<and>
   lw_context (latest_run [Render (Plain (3::nat), default_options), Render (LOADING, default_options),
                           Elapse 400, Render (Plain 4, default_options)] (latest_init (mounted 0)))
     = \<lparr>uniqueId = 1, registered = {}, isIndicating = False\<rparr> \<and>
   lw_context (latest_run [Render (Plain (3::nat), default_options), Render (LOADING, default_options),
                           Elapse 100] (latest_init (mounted 0)))
     = mounted 0"
proof -
  have pre: "last_render [Render (Plain (3::nat), default_options)] = Some (Plain 3, default_options)"
    by simp
  have ready: "isReady (Plain (3::nat))" and settled: "isReady (Plain (4::nat)) \<or> isFailure (Plain (4::nat))"
    by (simp_all add: isReady_def)
  have shown: "\<not> hidden default_options"
    by (simp add: hidden_def default_options_def)
  have stale: "(LOADING :: nat jsval) = NOT_ASKED \<or> (LOADING :: nat jsval) = LOADING"
    by simp
  have long: "\<forall>e\<in>set [Elapse 400 :: (nat jsval \<times> RemoteLatestOptions) timed_event].
                 stays_stale default_options e"
    and short: "\<forall>e\<in>set [Elapse 100 :: (nat jsval \<times> RemoteLatestOptions) timed_event].
                 stays_stale default_options e"
    by (simp_all add: stays_stale_def)
  have before: "latest_run [Render (Plain (3::nat), default_options)] (latest_init (mounted 0))
      = \<lparr>lw_now = 0, lw_args = Some (Plain 3, default_options),
         lw_hook = Some \<lparr>shown = Plain 3, activity = at_rest\<rparr>,
         lw_context = mounted 0, lw_returned = [Plain 3]\<rparr>"
    by (simp add: latest_run_def latest_init_def latest_render_def useRemoteLatest_reporting_def
          useRemoteLatest_def isReady_def strict_neq_def useActivityIndicator_idle Let_def)
  have reg: "register (mounted 0) = (0, \<lparr>uniqueId = Suc 0, registered = {0}, isIndicating = True\<rparr>)"
    and dereg: "deregister 0 \<lparr>uniqueId = Suc 0, registered = {0}, isIndicating = True\<rparr>
                  = \<lparr>uniqueId = Suc 0, registered = {}, isIndicating = False\<rparr>"
    by (simp_all add: register_def deregister_def mounted_def Let_def)
  have four: "latest_run [e1, e2, e3, Render q] w = latest_render q (latest_run [e1, e2, e3] w)"
    for e1 e2 e3 q and w :: "nat latest_world"
    by (simp add: latest_run_def)
  have rep: "reported default_options [Elapse 400 :: (nat jsval \<times> RemoteLatestOptions) timed_event]"
    "\<not> reported default_options [Elapse 100 :: (nat jsval \<times> RemoteLatestOptions) timed_event]"
    by (simp_all add: reported_def threshold_def default_options_def)
  show ?thesis
    using reports_after_threshold
            [OF pre ready shown stale long settled, of "mounted 0" default_options 0 "[]"]
          reports_after_threshold
            [OF pre ready shown stale short settled, of "mounted 0" default_options 0 "[]"]
    by (simp add: Let_def before reg dereg rep four del: latest_step.simps(2))
qed

text \<open>
  C4. A ready \<open>NaN\<close> breaks the report, since \<open>shown.current !== data\<close> holds of it.
  Mount the hook with \<open>NaN\<close> under the default options and wait 250 ms: the hook has
  returned the value it was given each time, yet a token is registered and the registry
  is indicating. And after a ready value, then \<open>LOADING\<close> for 400 ms, a render with
  \<open>NaN\<close> returns \<open>NaN\<close> and leaves the token registered.
\<close>

theorem useRemoteLatest_reports_fresh_NaN:
  "lw_returned (latest_run [Render (NaN :: nat jsval, default_options), Elapse 250]
                  (latest_init (mounted 0)))
     = [NaN, NaN] \<and>
   lw_context (latest_run [Render (NaN :: nat jsval, default_options), Elapse 250]
                 (latest_init (mounted 0)))
     = \<lparr>uniqueId = 1, registered = {0}, isIndicating = True\<rparr> \<and>
   lw_returned (latest_run [Render (Plain (3::nat), default_options),
                            Render (LOADING, default_options), Elapse 400,
                            Render (NaN, default_options)] (latest_init (mounted 0)))
     = [Plain 3, Plain 3, Plain 3, NaN] \<and>
   lw_context (latest_run [Render (Plain (3::nat), default_options),
                           Render (LOADING, default_options), Elapse 400,
                           Render (NaN, default_options)] (latest_init (mounted 0)))
     = \<lparr>uniqueId = 1, registered = {0}, isIndicating = True\<rparr>"
  by (simp add: latest_run_def latest_init_def latest_render_def useRemoteLatest_reporting_def
        useRemoteLatest_def isReady_def strict_neq_def useActivityIndicator_def useTimeout_def
        due_def register_def mounted_def default_options_def hidden_def Let_def)

end
